theory Spec2Isabelle
  imports Main "HOL-Library.Product_Lexorder"
begin

section \<open>The hand evaluator (pokerEvaluator.js)\<close>

text \<open>
  A card is a JavaScript string such as \<open>"Ah"\<close>; the evaluator reads \<open>c[0]\<close> (the rank) and
  \<open>c[1]\<close> (the suit). Indexing a string past its end gives \<open>undefined\<close>, modelled by
  \<open>None\<close>. A \<open>char\<close> stands for one code unit of the string.
\<close>

type_synonym card = string

text \<open>
  \<open>TypeError\<close> is the JavaScript exception of reading a property of \<open>undefined\<close> or
  \<open>null\<close>; \<open>NoSuchConnection\<close> marks an event of a connection that does not exist.
\<close>

datatype error = TypeError | NoSuchConnection

definition RANKS :: "char list" where
  "RANKS = ''23456789TJQKA''"

definition charAt :: "string \<Rightarrow> nat \<Rightarrow> char option" where
  "charAt c i = (if i < length c then Some (c ! i) else None)"

text \<open>\<open>Array.prototype.indexOf\<close>: the first position of the element, or -1.\<close>

fun indexOf :: "'a list \<Rightarrow> 'a \<Rightarrow> int" where
  "indexOf [] x = - 1"
| "indexOf (y # ys) x =
     (if y = x then 0 else (let i = indexOf ys x in if i < 0 then - 1 else i + 1))"

definition rankValue :: "char option \<Rightarrow> int" where
  "rankValue r = (case r of None \<Rightarrow> - 1 | Some c \<Rightarrow> indexOf RANKS c)"

text \<open>
  \<open>getCombinations\<close>: the inner \<open>helper(start, combo)\<close> pushes onto the shared array
  \<open>result\<close>; the model returns the entries a call pushes, in the order it pushes them.
  \<open>helperLoop\<close> is the \<open>for\<close> loop of \<open>helper\<close>, from index \<open>i\<close> on.
\<close>

function helper :: "'a list \<Rightarrow> nat \<Rightarrow> nat \<Rightarrow> 'a list \<Rightarrow> 'a list list"
  and helperLoop :: "'a list \<Rightarrow> nat \<Rightarrow> nat \<Rightarrow> 'a list \<Rightarrow> 'a list list" where
  "helper cards k start combo =
     (if length combo = k then [combo] else helperLoop cards k start combo)"
| "helperLoop cards k i combo =
     (if i < length cards
      then helper cards k (i + 1) (combo @ [cards ! i]) @ helperLoop cards k (i + 1) combo
      else [])"
  by pat_completeness auto
termination
  by (relation "measure (\<lambda>x. case x of
        Inl (cards, k, start, combo) \<Rightarrow> 2 * (length cards - start) + 1
      | Inr (cards, k, i, combo) \<Rightarrow> 2 * (length cards - i))") auto

definition getCombinations :: "'a list \<Rightarrow> nat \<Rightarrow> 'a list list" where
  "getCombinations cards k = helper cards k 0 []"

record result =
  score :: int
  handName :: string

text \<open>\<open>[...new Set(ranks)]\<close>: the distinct elements in order of first occurrence.\<close>

definition uniq :: "'a list \<Rightarrow> 'a list" where
  "uniq xs = rev (remdups (rev xs))"

text \<open>
  \<open>Object.entries(counts)\<close>: the keys that are array indices (here the digits) come
  first in ascending numeric order, the other keys follow in insertion order, which is the
  order of first occurrence in \<open>ranks\<close>. The key of \<open>undefined\<close> is the string
  \<open>"undefined"\<close>, whose \<open>rankValue\<close> is -1 as well.
\<close>

definition isIndexKey :: "char option \<Rightarrow> bool" where
  "isIndexKey r = (case r of None \<Rightarrow> False | Some c \<Rightarrow> c \<in> set ''0123456789'')"

definition digitValue :: "char option \<Rightarrow> int" where
  "digitValue r = (case r of None \<Rightarrow> - 1 | Some c \<Rightarrow> indexOf ''0123456789'' c)"

definition entries :: "char option list \<Rightarrow> (char option \<times> nat) list" where
  "entries ranks =
     (let keys = uniq ranks
      in map (\<lambda>r. (r, count_list ranks r))
           (sort_key digitValue (filter isIndexKey keys) @
            filter (\<lambda>r. \<not> isIndexKey r) keys))"

text \<open>The straight loop: \<open>(straight, highStraight)\<close> after visiting the indices in \<open>is\<close>.\<close>

fun straightLoop :: "int list \<Rightarrow> nat list \<Rightarrow> bool \<times> int option \<Rightarrow> bool \<times> int option" where
  "straightLoop values [] st = st"
| "straightLoop values (i # is) st =
     straightLoop values is
       (if values ! (i + 4) - values ! i = 4 then (True, Some (values ! (i + 4))) else st)"

definition straightCheck :: "char option list \<Rightarrow> bool \<times> int option" where
  "straightCheck uniqueRanks =
     (if length uniqueRanks \<ge> 5
      then
        (let values = sort (map rankValue uniqueRanks);
             st = straightLoop values [0 ..< length values - 4] (False, None)
         in if 12 \<in> set values \<and> take 4 values = [0, 1, 2, 3] then (True, Some 3) else st)
      else (False, None))"

definition lastRank :: "char option list \<Rightarrow> char option" where
  "lastRank ranks = (if ranks = [] then None else last ranks)"

text \<open>
  \<open>ranks.sort(...)\<close> by \<open>rankValue\<close>: \<open>Array.prototype.sort\<close> is stable, compares only the
  entries that are not \<open>undefined\<close> and moves the \<open>undefined\<close> ones to the end.
\<close>

definition sortRanks :: "char option list \<Rightarrow> char option list" where
  "sortRanks rs = sort_key rankValue (filter (\<lambda>r. r \<noteq> None) rs) @ filter (\<lambda>r. r = None) rs"

definition evaluate5 :: "card list \<Rightarrow> error + result" where
  "evaluate5 hand =
     (let ranks = sortRanks (map (\<lambda>c. charAt c 0) hand);
          suits = map (\<lambda>c. charAt c 1) hand;
          flush = (case suits of [] \<Rightarrow> True | s0 # _ \<Rightarrow> list_all (\<lambda>s. s = s0) suits);
          uniqueRanks = uniq ranks;
          (straight, highStraight) = straightCheck uniqueRanks;
          countsArr = sort_key (\<lambda>(r, c). (- int c, - rankValue r)) (entries ranks)
      in if straight \<and> flush then
           (if highStraight = Some 12
            then Inr \<lparr>score = 9000000, handName = ''Royal Flush''\<rparr>
            else Inr \<lparr>score = 8000000 + the highStraight, handName = ''Straight Flush''\<rparr>)
         else (case countsArr of
             [] \<Rightarrow> Inl TypeError
           | (r0, c0) # rest \<Rightarrow>
               (let c1 = (case rest of [] \<Rightarrow> None | (r1, c1) # _ \<Rightarrow> Some c1)
                in if c0 = 4 then
                     Inr \<lparr>score = 7000000 + rankValue r0, handName = ''Four of a Kind''\<rparr>
                   else if c0 = 3 \<and> c1 = Some 2 then
                     Inr \<lparr>score = 6000000 + rankValue r0, handName = ''Full House''\<rparr>
                   else if flush then
                     Inr \<lparr>score = 5000000 + rankValue (lastRank ranks), handName = ''Flush''\<rparr>
                   else if straight then
                     Inr \<lparr>score = 4000000 + the highStraight, handName = ''Straight''\<rparr>
                   else if c0 = 3 then
                     Inr \<lparr>score = 3000000 + rankValue r0, handName = ''Three of a Kind''\<rparr>
                   else if c0 = 2 \<and> c1 = Some 2 then
                     Inr \<lparr>score = 2000000 + rankValue r0, handName = ''Two Pair''\<rparr>
                   else if c0 = 2 then
                     Inr \<lparr>score = 1000000 + rankValue r0, handName = ''One Pair''\<rparr>
                   else
                     Inr \<lparr>score = rankValue (lastRank ranks), handName = ''High Card''\<rparr>)))"

record best =
  bscore :: int
  bname :: string
  bhand :: "card list"

text \<open>The loop of \<open>evaluate7\<close> over the combinations, with the running \<open>best\<close>.\<close>

fun bestLoop :: "card list list \<Rightarrow> best \<Rightarrow> error + best" where
  "bestLoop [] b = Inr b"
| "bestLoop (combo # combos) b =
     (case evaluate5 combo of
        Inl e \<Rightarrow> Inl e
      | Inr r \<Rightarrow>
          bestLoop combos
            (if score r > bscore b
             then \<lparr>bscore = score r, bname = handName r, bhand = combo\<rparr> else b))"

definition evaluate7 :: "card list \<Rightarrow> error + best" where
  "evaluate7 cards =
     bestLoop (getCombinations cards 5) \<lparr>bscore = - 1, bname = '''', bhand = []\<rparr>"


subsection \<open>Notions used to state the evaluator's properties\<close>

text \<open>
  The card of the data model: a rank symbol, one of the thirteen of \<open>RANKS\<close>, followed by
  a suit symbol.
\<close>

definition isCard :: "card \<Rightarrow> bool" where
  "isCard c = (case c of [r, s] \<Rightarrow> r \<in> set RANKS | _ \<Rightarrow> False)"

text \<open>
  The category order: royal and straight flush on top, then four of a kind, full house,
  flush, straight, three of a kind, two pair, one pair, high card.
\<close>

definition categoryRank :: "string \<Rightarrow> nat" where
  "categoryRank n =
     (if n = ''Royal Flush'' \<or> n = ''Straight Flush'' then 8
      else if n = ''Four of a Kind'' then 7
      else if n = ''Full House'' then 6
      else if n = ''Flush'' then 5
      else if n = ''Straight'' then 4
      else if n = ''Three of a Kind'' then 3
      else if n = ''Two Pair'' then 2
      else if n = ''One Pair'' then 1
      else 0)"

definition categoryNames :: "string list" where
  "categoryNames = [''Royal Flush'', ''Straight Flush'', ''Four of a Kind'', ''Full House'',
     ''Flush'', ''Straight'', ''Three of a Kind'', ''Two Pair'', ''One Pair'', ''High Card'']"

text \<open>The subsequences of a given length, in the order of \<open>subseqs\<close>.\<close>

definition ofLength :: "nat \<Rightarrow> 'a list \<Rightarrow> 'a list list" where
  "ofLength n xs = filter (\<lambda>ys. length ys = n) (subseqs xs)"

text \<open>A straight, once found, has a high value in the range of \<open>rankValue\<close>.\<close>

definition okHigh :: "bool \<times> int option \<Rightarrow> bool" where
  "okHigh st = (if fst st then (case snd st of None \<Rightarrow> False | Some v \<Rightarrow> - 1 \<le> v \<and> v \<le> 12)
                else True)"

definition scored :: "result \<Rightarrow> int \<Rightarrow> string \<Rightarrow> bool" where
  "scored r base n = (handName r = n \<and> base - 1 \<le> score r \<and> score r \<le> base + 12)"

text \<open>The decision chain of \<open>evaluate5\<close>, once its local values are computed.\<close>

definition classify ::
  "bool \<Rightarrow> int option \<Rightarrow> bool \<Rightarrow> (char option \<times> nat) list \<Rightarrow> char option list \<Rightarrow> error + result"
  where
  "classify straight highStraight flush countsArr ranks =
     (if straight \<and> flush then
           (if highStraight = Some 12
            then Inr \<lparr>score = 9000000, handName = ''Royal Flush''\<rparr>
            else Inr \<lparr>score = 8000000 + the highStraight, handName = ''Straight Flush''\<rparr>)
         else (case countsArr of
             [] \<Rightarrow> Inl TypeError
           | (r0, c0) # rest \<Rightarrow>
               (let c1 = (case rest of [] \<Rightarrow> None | (r1, c1) # _ \<Rightarrow> Some c1)
                in if c0 = 4 then
                     Inr \<lparr>score = 7000000 + rankValue r0, handName = ''Four of a Kind''\<rparr>
                   else if c0 = 3 \<and> c1 = Some 2 then
                     Inr \<lparr>score = 6000000 + rankValue r0, handName = ''Full House''\<rparr>
                   else if flush then
                     Inr \<lparr>score = 5000000 + rankValue (lastRank ranks), handName = ''Flush''\<rparr>
                   else if straight then
                     Inr \<lparr>score = 4000000 + the highStraight, handName = ''Straight''\<rparr>
                   else if c0 = 3 then
                     Inr \<lparr>score = 3000000 + rankValue r0, handName = ''Three of a Kind''\<rparr>
                   else if c0 = 2 \<and> c1 = Some 2 then
                     Inr \<lparr>score = 2000000 + rankValue r0, handName = ''Two Pair''\<rparr>
                   else if c0 = 2 then
                     Inr \<lparr>score = 1000000 + rankValue r0, handName = ''One Pair''\<rparr>
                   else
                     Inr \<lparr>score = rankValue (lastRank ranks), handName = ''High Card''\<rparr>)))"


section \<open>The table server (server.js)\<close>

subsection \<open>Data\<close>

type_synonym pid = string

text \<open>
  A player object of \<open>TABLE.players\<close>; its \<open>id\<close> is the key it is stored under. The
  fields \<open>ws\<close> (the connection) and \<open>lastAction\<close> (only ever set to \<open>null\<close>) are left
  out. A card slot holds \<open>None\<close> where \<open>deck.pop()\<close> on an empty deck gave \<open>undefined\<close>.
\<close>

record player =
  name :: string
  seat :: "nat option"
  chips :: int
  cards :: "card option list"
  folded :: bool
  active :: bool
  bet :: int

record seatRef =
  pId :: pid
  idx :: nat

datatype stage = Preflop | Flop | TurnStage | River

text \<open>
  The Round object \<open>g\<close> built by \<open>startGame\<close>. A JavaScript object yields \<open>undefined\<close>
  for a property it does not have: \<open>turnPlayerId\<close>, which the disconnect handler reads,
  is such a property, \<open>None\<close> as long as nothing assigns it.
\<close>

record game =
  gid :: string
  deck :: "card list"
  community :: "card option list"
  pot :: int
  smallBlind :: int
  bigBlind :: int
  gameDealerIndex :: nat
  seatOrder :: "seatRef list"
  stage :: stage
  currentBet :: int
  minRaise :: int
  actionCount :: int
  turnIndex :: nat
  toCall :: int
  turnEnd :: "int option"
  showdownComplete :: bool
  turnPlayerId :: "pid option"

datatype errorMsg =
    NoGameInProgress
  | NotYourTurn
  | RaiseAtLeast int
  | UnknownAction
  | AlreadySeatedJoin
  | AlreadySeated
  | GameInProgress

datatype logLine =
    LogTimedOut string
  | LogFolds string
  | LogChecks string
  | LogCalls string int
  | LogRaisesTo string int
  | LogNewGame
  | LogShowdownWinners "string list"
  | LogEndedEarly string
  | LogReset
  | LogTookSeat string int
  | LogLeftSeat string
  | LogDisconnected string

text \<open>
  The messages: \<open>StateMsg\<close> is the snapshot that \<open>broadcastState\<close> computes from the
  table at the moment it is sent.
\<close>

datatype payload =
    Error errorMsg
  | Turn pid int
  | Log logLine
  | StateMsg
  | GameStarted
  | HandMsg "card option list"
  | Reveal "(pid \<times> card option list) list" "card option list"
  | Collect pid int
  | GameEnded "(pid \<times> string) list"
  | Joined pid string
  | Reconnected string

datatype out = Broadcast payload | SendTo pid payload

text \<open>
  Chips, bets and amounts are numbers of JavaScript, that is doubles, and the amount of a
  raise comes unchecked from the message. The model takes them as integers: it covers the
  runs in which every amount is an integer and the numbers stay in the range where the
  arithmetic of doubles is exact; an amount with a fractional part is outside the model.
  The remainders \<open>x % seatOrder.length\<close> and
  \<open>x % seats.length\<close> are taken by a positive length: \<open>seats\<close> keeps its six entries, and
  a Round is built with at least two seats in \<open>seatOrder\<close>, which never changes. With a
  length of 0 JavaScript would yield \<open>NaN\<close>, which the model does not represent.
\<close>

text \<open>
  The process state: the fields of \<open>TABLE\<close>, the module variable \<open>turnTimer\<close> and the
  trace of the messages handed to the transport. \<open>players\<close> is the object
  \<open>TABLE.players\<close> as the list of its entries. \<open>turnTimer\<close> is \<open>Some curPid\<close> while a
  timeout is pending, \<open>curPid\<close> being the player the callback has captured; the Round
  the callback has captured is the current one, since every path that discards the Round
  clears the timer first.
\<close>

record server =
  seats :: "pid option list"
  players :: "(pid \<times> player) list"
  game :: "game option"
  dealerIndex :: nat
  turnTimer :: "pid option"
  sent :: "out list"

definition initialServer :: server where
  "initialServer =
     \<lparr>seats = replicate 6 None, players = [], game = None, dealerIndex = 0,
      turnTimer = None, sent = []\<rparr>"

text \<open>What the environment supplies to a handler: the clock, a fresh uuid, the random draws.\<close>

record env =
  now :: int
  uuid :: string
  random :: "nat \<Rightarrow> nat"

subsection \<open>Helpers\<close>

definition bindE :: "error + 'a \<Rightarrow> ('a \<Rightarrow> error + 'b) \<Rightarrow> error + 'b" where
  "bindE m f = (case m of Inl e \<Rightarrow> Inl e | Inr x \<Rightarrow> f x)"

definition lookup :: "server \<Rightarrow> pid \<Rightarrow> player option" where
  "lookup s i = map_of (players s) i"

text \<open>Mutating the player object stored under a key.\<close>

definition updPlayer :: "pid \<Rightarrow> (player \<Rightarrow> player) \<Rightarrow> server \<Rightarrow> server" where
  "updPlayer i f s =
     s\<lparr>players := map (\<lambda>(k, p). if k = i then (k, f p) else (k, p)) (players s)\<rparr>"

definition updGame :: "(game \<Rightarrow> game) \<Rightarrow> server \<Rightarrow> server" where
  "updGame f s = s\<lparr>game := map_option f (game s)\<rparr>"

definition broadcast :: "payload \<Rightarrow> server \<Rightarrow> server" where
  "broadcast m s = s\<lparr>sent := sent s @ [Broadcast m]\<rparr>"

text \<open>\<open>sendTo(TABLE.players[i], m)\<close>: nothing is sent when there is no such player.\<close>

definition sendTo :: "pid \<Rightarrow> payload \<Rightarrow> server \<Rightarrow> server" where
  "sendTo i m s = (if lookup s i = None then s else s\<lparr>sent := sent s @ [SendTo i m]\<rparr>)"

definition logToAll :: "logLine \<Rightarrow> server \<Rightarrow> server" where
  "logToAll l s = broadcast (Log l) s"

definition activePlayers :: "server \<Rightarrow> game \<Rightarrow> (pid \<times> player) list" where
  "activePlayers s g =
     filter (\<lambda>(i, p). active p \<and> \<not> folded p)
       (List.map_filter (\<lambda>r. map_option (Pair (pId r)) (lookup s (pId r))) (seatOrder g))"

fun nextActiveLoop :: "server \<Rightarrow> game \<Rightarrow> nat \<Rightarrow> nat list \<Rightarrow> nat option" where
  "nextActiveLoop s g fromIndex [] = None"
| "nextActiveLoop s g fromIndex (step # steps) =
     (let i = (fromIndex + step) mod length (seatOrder g)
      in case lookup s (pId (seatOrder g ! i)) of
           None \<Rightarrow> nextActiveLoop s g fromIndex steps
         | Some p \<Rightarrow>
             if active p \<and> \<not> folded p then Some i else nextActiveLoop s g fromIndex steps)"

text \<open>\<open>nextActiveIndex\<close>: \<open>None\<close> is the result -1.\<close>

definition nextActiveIndex :: "server \<Rightarrow> game \<Rightarrow> nat \<Rightarrow> nat option" where
  "nextActiveIndex s g fromIndex =
     nextActiveLoop s g fromIndex [1 ..< length (seatOrder g) + 1]"

definition everyoneMatchedCurrentBet :: "server \<Rightarrow> game \<Rightarrow> bool" where
  "everyoneMatchedCurrentBet s g =
     (let cur = currentBet g; aps = activePlayers s g
      in if length aps \<le> 1 then True
         else list_all (\<lambda>(i, p). bet p = cur \<or> (chips p = 0 \<and> bet p \<le> cur)) aps)"

definition numActive :: "server \<Rightarrow> game \<Rightarrow> nat" where
  "numActive s g = length (activePlayers s g)"

subsection \<open>Turn timer\<close>

definition clearTurnTimer :: "server \<Rightarrow> server" where
  "clearTurnTimer s = updGame (\<lambda>g. g\<lparr>turnEnd := None\<rparr>) (s\<lparr>turnTimer := None\<rparr>)"

definition startTurnTimer :: "int \<Rightarrow> server \<Rightarrow> error + server" where
  "startTurnTimer t s =
     (case game s of
        None \<Rightarrow> Inr s
      | Some g0 \<Rightarrow>
          (let s1 = clearTurnTimer s
           in if seatOrder g0 = [] then Inl TypeError
              else
                (let curIdx = turnIndex g0 mod length (seatOrder g0);
                     curPid = pId (seatOrder g0 ! curIdx);
                     timeoutMs = 20000;
                     s2 = updGame (\<lambda>g. g\<lparr>turnEnd := Some (t + timeoutMs)\<rparr>) s1;
                     s3 = broadcast (Turn curPid (t + timeoutMs)) s2
                 in Inr (s3\<lparr>turnTimer := Some curPid\<rparr>))))"

text \<open>\<open>broadcastState\<close> reads \<open>g.seatOrder[g.turnIndex % g.seatOrder.length].pId\<close>.\<close>

definition broadcastState :: "server \<Rightarrow> error + server" where
  "broadcastState s =
     (case game s of
        None \<Rightarrow> Inr (broadcast StateMsg s)
      | Some g \<Rightarrow> if seatOrder g = [] then Inl TypeError else Inr (broadcast StateMsg s))"

subsection \<open>Settlement\<close>

definition awardPotAndEnd :: "server \<Rightarrow> error + server" where
  "awardPotAndEnd s =
     (case game s of
        None \<Rightarrow> Inr s
      | Some g \<Rightarrow>
          (case activePlayers s g of
             [] \<Rightarrow> Inr s
           | (w, winner) # _ \<Rightarrow>
               (let s1 = updPlayer w (\<lambda>p. p\<lparr>chips := chips p + pot g\<rparr>) s;
                    s2 = updGame (\<lambda>g. g\<lparr>pot := 0\<rparr>) s1;
                    s3 = broadcast (GameEnded [(w, name winner)]) s2;
                    s4 = logToAll (LogEndedEarly (name winner)) s3;
                    s5 = s4\<lparr>dealerIndex := (dealerIndex s4 + 1) mod length (seats s4)\<rparr>;
                    s6 = clearTurnTimer s5;
                    s7 = s6\<lparr>game := None\<rparr>
                in bindE (broadcastState s7) (\<lambda>s8. Inr (logToAll LogReset s8)))))"

text \<open>
  \<open>finishShowdown\<close> ranks the hands with the library pokersolver, which is not part of the
  repository: \<open>Hand.solve\<close> and \<open>Hand.winners\<close> are taken as the parameter \<open>hv\<close>, the
  value of a player's cards under the library's order, the winners being the hands of
  greatest value: \<open>winnerPlayers\<close> is the evaluation and the selection of the winners.
  The description of a winning hand in the summary is left out.
\<close>

definition winnerPlayers ::
  "(card option list \<Rightarrow> int) \<Rightarrow> server \<Rightarrow> game \<Rightarrow> (pid \<times> player) list" where
  "winnerPlayers hv s g =
     (let aps = activePlayers s g;
          evaluated = map (\<lambda>(i, p). (i, p, hv (cards p @ community g))) aps;
          top = Max (set (map (\<lambda>(i, p, v). v) evaluated))
      in map (\<lambda>(i, p, v). (i, p)) (filter (\<lambda>(i, p, v). v = top) evaluated))"

definition finishShowdown :: "(card option list \<Rightarrow> int) \<Rightarrow> server \<Rightarrow> error + server" where
  "finishShowdown hv s =
     (case game s of
        None \<Rightarrow> Inr s
      | Some g \<Rightarrow>
          (let aps = activePlayers s g
           in if aps = [] then Inr s
              else
                (let s1 = broadcast (Reveal (map (\<lambda>(i, p). (i, cards p)) aps) (community g)) s;
                     winners = winnerPlayers hv s1 g;
                     share = pot g div int (length winners);
                     s2 = fold (\<lambda>(i, p). updPlayer i (\<lambda>p. p\<lparr>chips := chips p + share\<rparr>))
                            winners s1;
                     s3 = updGame (\<lambda>g. g\<lparr>pot := 0\<rparr>) s2;
                     summary = map (\<lambda>(i, p). (i, name p)) winners;
                     s4 = broadcast (GameEnded summary) s3;
                     s5 = logToAll (LogShowdownWinners (map snd summary)) s4;
                     s6 = s5\<lparr>dealerIndex := (dealerIndex s5 + 1) mod length (seats s5)\<rparr>;
                     s7 = updGame (\<lambda>g. g\<lparr>showdownComplete := True\<rparr>) s6;
                     s8 = clearTurnTimer s7;
                     s9 = s8\<lparr>game := None\<rparr>
                 in bindE (broadcastState s9) (\<lambda>s10. Inr (logToAll LogReset s10)))))"

subsection \<open>Streets\<close>

text \<open>\<open>deck.pop()\<close>: the last card, or \<open>undefined\<close> from an empty deck.\<close>

definition pop :: "card list \<Rightarrow> card option \<times> card list" where
  "pop d = (if d = [] then (None, []) else (Some (last d), butlast d))"

definition popN :: "nat \<Rightarrow> card list \<Rightarrow> card option list \<times> card list" where
  "popN n d = ((fold (\<lambda>_ (cs, d). (cs @ [fst (pop d)], snd (pop d))) [0 ..< n]) ([], d))"

definition dealCommunity :: "stage \<Rightarrow> game \<Rightarrow> game" where
  "dealCommunity st g =
     (case st of
        Flop \<Rightarrow>
          (let d1 = snd (pop (deck g)); (cs, d2) = popN 3 d1
           in g\<lparr>deck := d2, community := community g @ cs\<rparr>)
      | Preflop \<Rightarrow> g
      | _ \<Rightarrow>
          (let d1 = snd (pop (deck g)); (cs, d2) = popN 1 d1
           in g\<lparr>deck := d2, community := community g @ cs\<rparr>))"

definition startBettingRound :: "int \<Rightarrow> stage \<Rightarrow> server \<Rightarrow> error + server" where
  "startBettingRound t st s =
     (case game s of
        None \<Rightarrow> Inr s
      | Some g0 \<Rightarrow>
          (let g1 = g0\<lparr>stage := st, currentBet := 0, minRaise := bigBlind g0, actionCount := 0,
                       turnIndex := (gameDealerIndex g0 + 1) mod length (seatOrder g0)\<rparr>;
               s1 = s\<lparr>game := Some g1\<rparr>;
               s2 = fold (\<lambda>(i, p). updPlayer i (\<lambda>p. p\<lparr>bet := 0\<rparr>)) (activePlayers s1 g1) s1;
               s3 = updGame (dealCommunity st) s2
           in if numActive s3 g1 \<le> 1 then awardPotAndEnd s3
              else bindE (broadcastState s3) (startTurnTimer t)))"

subsection \<open>Actions\<close>

definition advanceTurnAfterAction ::
  "(card option list \<Rightarrow> int) \<Rightarrow> int \<Rightarrow> string \<Rightarrow> server \<Rightarrow> error + server" where
  "advanceTurnAfterAction hv t kind s =
     (case game s of
        None \<Rightarrow> Inr s
      | Some g0 \<Rightarrow>
          (let g1 = (if kind \<noteq> ''fold'' then g0\<lparr>actionCount := actionCount g0 + 1\<rparr> else g0);
               s1 = s\<lparr>game := Some g1\<rparr>
           in case nextActiveIndex s1 g1 (turnIndex g1) of
                None \<Rightarrow> awardPotAndEnd s1
              | Some nextIdx \<Rightarrow>
                  (let g2 = g1\<lparr>turnIndex := nextIdx\<rparr>;
                       s2 = s1\<lparr>game := Some g2\<rparr>;
                       aps = activePlayers s2 g2
                   in if length aps \<le> 1 then awardPotAndEnd s2
                      else
                        (let roundComplete =
                               (if currentBet g2 = 0 then actionCount g2 \<ge> int (length aps)
                                else everyoneMatchedCurrentBet s2 g2)
                         in if roundComplete then
                              (let s3 = updGame (\<lambda>g. g\<lparr>actionCount := 0\<rparr>) s2
                               in case stage g2 of
                                    Preflop \<Rightarrow> startBettingRound t Flop s3
                                  | Flop \<Rightarrow> startBettingRound t TurnStage s3
                                  | TurnStage \<Rightarrow> startBettingRound t River s3
                                  | River \<Rightarrow> finishShowdown hv s3)
                            else bindE (broadcastState s2) (startTurnTimer t)))))"

definition callAmount :: "game \<Rightarrow> player \<Rightarrow> int" where
  "callAmount g p = max 0 (currentBet g - bet p)"

definition processAction ::
  "(card option list \<Rightarrow> int) \<Rightarrow> int \<Rightarrow> pid \<Rightarrow> string \<Rightarrow> int \<Rightarrow> server \<Rightarrow> error + server" where
  "processAction hv t playerId action amount s =
     (case game s of
        None \<Rightarrow> Inr (sendTo playerId (Error NoGameInProgress) s)
      | Some g \<Rightarrow>
          if seatOrder g = [] then Inl TypeError
          else
            (let curIdx = turnIndex g mod length (seatOrder g);
                 curPid = pId (seatOrder g ! curIdx)
             in if curPid \<noteq> playerId then Inr (sendTo playerId (Error NotYourTurn) s)
                else
                  (let s1 = clearTurnTimer s
                   in case lookup s1 playerId of
                        None \<Rightarrow> Inl TypeError
                      | Some p \<Rightarrow>
                          (let toCall = callAmount g p
                           in if action = ''fold'' then
                                (let s2 = updPlayer playerId (\<lambda>p. p\<lparr>folded := True\<rparr>) s1;
                                     s3 = logToAll (LogFolds (name p)) s2
                                 in if numActive s3 g \<le> 1
                                    then awardPotAndEnd s3
                                    else advanceTurnAfterAction hv t action s3)
                              else if action = ''call'' \<or> action = ''check'' then
                                (if toCall = 0 then
                                   advanceTurnAfterAction hv t action (logToAll (LogChecks (name p)) s1)
                                 else
                                   (let paid = min toCall (chips p);
                                        s2 = updPlayer playerId
                                               (\<lambda>p. p\<lparr>chips := chips p - paid, bet := bet p + paid\<rparr>) s1;
                                        s3 = updGame (\<lambda>g. g\<lparr>pot := pot g + paid\<rparr>) s2;
                                        s4 = logToAll (LogCalls (name p) paid) s3;
                                        s5 = broadcast (Collect playerId paid) s4
                                    in advanceTurnAfterAction hv t action s5))
                              else if action = ''raise'' then
                                (if amount < minRaise g then
                                   startTurnTimer t
                                     (sendTo playerId (Error (RaiseAtLeast (minRaise g))) s1)
                                 else
                                   (let totalBet = bet p + toCall + amount;
                                        paid0 = toCall + amount;
                                        paid = (if paid0 > chips p then chips p else paid0);
                                        amount' = (if paid0 > chips p then paid - toCall else amount);
                                        s2 = updPlayer playerId
                                               (\<lambda>p. p\<lparr>chips := chips p - paid, bet := totalBet\<rparr>) s1;
                                        s3 = updGame (\<lambda>g. g\<lparr>pot := pot g + paid, currentBet := totalBet,
                                                             minRaise := amount'\<rparr>) s2;
                                        s4 = broadcast (Collect playerId paid) s3;
                                        s5 = logToAll (LogRaisesTo (name p) totalBet) s4
                                    in advanceTurnAfterAction hv t ''raise'' s5))
                              else
                                startTurnTimer t (sendTo playerId (Error UnknownAction) s1)))))"

subsection \<open>Starting a hand\<close>

definition mkDeck :: "card list" where
  "mkDeck = concat (map (\<lambda>r. map (\<lambda>s. [r, s]) ''shdc'') RANKS)"

text \<open>
  \<open>shuffle\<close>: the loop from \<open>i\<close> down to 1; \<open>rnd i mod (i + 1)\<close> is the draw
  \<open>Math.floor(Math.random() * (i + 1))\<close> of that iteration.
\<close>

fun shuffleFrom :: "(nat \<Rightarrow> nat) \<Rightarrow> nat \<Rightarrow> card list \<Rightarrow> card list" where
  "shuffleFrom rnd 0 d = d"
| "shuffleFrom rnd (Suc i) d =
     (let j = rnd (Suc i) mod (Suc i + 1)
      in shuffleFrom rnd i (d[Suc i := d ! j, j := d ! Suc i]))"

definition shuffle :: "(nat \<Rightarrow> nat) \<Rightarrow> card list \<Rightarrow> card list" where
  "shuffle rnd d = shuffleFrom rnd (length d - 1) d"

text \<open>The remainder operator \<open>%\<close> of JavaScript takes the sign of the dividend.\<close>

definition jsRem :: "int \<Rightarrow> int \<Rightarrow> int" where
  "jsRem a b = sgn a * (\<bar>a\<bar> mod \<bar>b\<bar>)"

text \<open>\<open>seats.filter(Boolean)\<close> drops \<open>null\<close> and the empty string.\<close>

definition seatedIds :: "pid option list \<Rightarrow> pid option list" where
  "seatedIds ss = filter (\<lambda>x. x \<noteq> None \<and> x \<noteq> Some []) ss"

definition mkSeatOrder :: "pid option list \<Rightarrow> nat \<Rightarrow> seatRef list" where
  "mkSeatOrder ss d =
     sort_key (\<lambda>r. jsRem (int (idx r) - int d + 6) 6)
       (List.map_filter (\<lambda>(x, i). map_option (\<lambda>k. \<lparr>pId = k, idx = i\<rparr>) x)
          (zip ss [0 ..< length ss]))"

text \<open>One pass of the dealing loop over \<open>seatOrder\<close>.\<close>

fun dealPass :: "seatRef list \<Rightarrow> server \<times> card list \<Rightarrow> server \<times> card list" where
  "dealPass [] sd = sd"
| "dealPass (r # rs) (s, d) =
     (case lookup s (pId r) of
        None \<Rightarrow> dealPass rs (s, d)
      | Some p \<Rightarrow>
          if active p
          then dealPass rs (updPlayer (pId r) (\<lambda>p. p\<lparr>cards := cards p @ [fst (pop d)]\<rparr>) s,
                 snd (pop d))
          else dealPass rs (s, d))"

text \<open>The loop that sends each seat of \<open>seatOrder\<close> its private hand.\<close>

fun sendHands :: "seatRef list \<Rightarrow> server \<Rightarrow> error + server" where
  "sendHands [] s = Inr s"
| "sendHands (r # rs) s =
     (case lookup s (pId r) of
        None \<Rightarrow> Inl TypeError
      | Some p \<Rightarrow> sendHands rs (sendTo (pId r) (HandMsg (cards p)) s))"

definition postBlind :: "pid \<Rightarrow> int \<Rightarrow> server \<Rightarrow> server" where
  "postBlind i b s = updPlayer i (\<lambda>p. p\<lparr>chips := max 0 (chips p - b), bet := b\<rparr>) s"

definition startGame :: "env \<Rightarrow> server \<Rightarrow> error + server" where
  "startGame e s0 =
     (let s = (case game s0 of
                 None \<Rightarrow> s0
               | Some g \<Rightarrow> if showdownComplete g then s0\<lparr>game := None\<rparr> else s0)
      in if game s \<noteq> None then Inr s
         else if length (seatedIds (seats s)) < 2 then Inr s
         else
           (let s1 = broadcast GameStarted s;
                order = mkSeatOrder (seats s1) (dealerIndex s1);
                g = \<lparr>gid = uuid e, deck = shuffle (random e) mkDeck, community = [], pot = 0,
                     smallBlind = 10, bigBlind = 20, gameDealerIndex = dealerIndex s1,
                     seatOrder = order, stage = Preflop, currentBet = 0, minRaise = 20,
                     actionCount = 0, turnIndex = 0, toCall = 0, turnEnd = None,
                     showdownComplete = False, turnPlayerId = None\<rparr>;
                s2 = s1\<lparr>players :=
                        map (\<lambda>(k, p). (k, p\<lparr>cards := [], folded := (seat p = None),
                                              active := (seat p \<noteq> None), bet := 0\<rparr>))
                          (players s1)\<rparr>;
                dealt = dealPass order (dealPass order (s2, deck g));
                s3 = fst dealt;
                g3 = g\<lparr>deck := snd dealt\<rparr>
            in if length order < 2 then Inl TypeError
               else
                 (let sb = pId (order ! 0);
                      bb = pId (order ! 1)
                  in if lookup s3 sb = None then Inl TypeError
                     else
                       (let s4 = postBlind sb (smallBlind g3) s3;
                            g4 = g3\<lparr>pot := pot g3 + smallBlind g3\<rparr>
                        in if lookup s4 bb = None then Inl TypeError
                           else
                             (let s5 = postBlind bb (bigBlind g4) s4;
                                  g5 = g4\<lparr>pot := pot g4 + bigBlind g4, currentBet := bigBlind g4,
                                          minRaise := bigBlind g4,
                                          turnIndex := 2 mod length order\<rparr>;
                                  s6 = s5\<lparr>game := Some g5\<rparr>
                              in bindE (sendHands order s6) (\<lambda>s7.
                                 bindE (broadcastState s7) (\<lambda>s8.
                                 bindE (startTurnTimer (now e) s8) (\<lambda>s9.
                                 Inr (logToAll LogNewGame s9)))))))))"

subsection \<open>Connection handlers\<close>

text \<open>
  A new connection: \<open>ws.id\<close> is still \<open>undefined\<close> when \<open>TABLE.players[ws.id]\<close> is read,
  so the lookup is that of the key \<open>"undefined"\<close>; the new player is stored under the
  fresh uuid.
\<close>

definition setPlayer :: "pid \<Rightarrow> player \<Rightarrow> server \<Rightarrow> server" where
  "setPlayer i p s =
     (if lookup s i = None then s\<lparr>players := players s @ [(i, p)]\<rparr>
      else updPlayer i (\<lambda>_. p) s)"

fun showNat :: "nat \<Rightarrow> string" where
  "showNat n =
     (if n < 10 then [''0123456789'' ! n] else showNat (n div 10) @ [''0123456789'' ! (n mod 10)])"

definition connection :: "env \<Rightarrow> server \<Rightarrow> error + server" where
  "connection e s =
     (case lookup s ''undefined'' of
        None \<Rightarrow>
          (let i = uuid e;
               guest = \<lparr>name = ''Guest'' @ showNat (length (players s) + 1), seat = None,
                        chips = 1000, cards = [], folded = True, active = False, bet = 0\<rparr>;
               s1 = setPlayer i guest s;
               s2 = sendTo i (Joined i (name guest)) s1
           in broadcastState s2)
      | Some p \<Rightarrow> Inr (sendTo ''undefined'' (Reconnected (name p)) s))"

datatype inbound =
    Join string
  | TakeSeat int
  | LeaveSeat
  | StartGame
  | Action string int
  | Other

definition setSeat :: "nat \<Rightarrow> pid option \<Rightarrow> server \<Rightarrow> server" where
  "setSeat i x s = s\<lparr>seats := (seats s)[i := x]\<rparr>"

definition takeSeat :: "pid \<Rightarrow> player \<Rightarrow> int \<Rightarrow> server \<Rightarrow> error + server" where
  "takeSeat i player n s =
     (if seat player \<noteq> None then Inr (sendTo i (Error AlreadySeated) s)
      else if game s \<noteq> None then Inr (sendTo i (Error GameInProgress) s)
      else if n < 0 \<or> n > 5 \<or> \<not> (nat n < length (seats s) \<and> seats s ! nat n = None) then Inr s
      else
        (let s1 = setSeat (nat n) (Some i) s;
             s2 = updPlayer i (\<lambda>p. p\<lparr>seat := Some (nat n), active := True, folded := False\<rparr>) s1;
             s3 = logToAll (LogTookSeat (name player) (n + 1)) s2
         in broadcastState s3))"

definition leaveSeat :: "pid \<Rightarrow> player \<Rightarrow> server \<Rightarrow> error + server" where
  "leaveSeat i player s =
     (if game s \<noteq> None then Inr (sendTo i (Error GameInProgress) s)
      else
        (case seat player of
           None \<Rightarrow> Inr s
         | Some n \<Rightarrow>
             (let s1 = setSeat n None s;
                  s2 = updPlayer i (\<lambda>p. p\<lparr>seat := None, active := False, folded := True\<rparr>) s1;
                  s3 = logToAll (LogLeftSeat (name player)) s2
              in broadcastState s3)))"

text \<open>
  The \<open>message\<close> handler of the connection of player \<open>i\<close>. An exception inside it is caught
  and logged; the model stops at it with \<open>Inl\<close>.
\<close>

definition onMessage ::
  "(card option list \<Rightarrow> int) \<Rightarrow> env \<Rightarrow> pid \<Rightarrow> inbound \<Rightarrow> server \<Rightarrow> error + server" where
  "onMessage hv e i d s =
     (case lookup s i of
        None \<Rightarrow> Inl NoSuchConnection
      | Some player \<Rightarrow>
          (case d of
             Join nm \<Rightarrow>
               if seat player \<noteq> None then Inr (sendTo i (Error AlreadySeatedJoin) s)
               else
                 (let nm' = take 20 (if nm = [] then name player else nm);
                      s1 = updPlayer i (\<lambda>p. p\<lparr>name := nm'\<rparr>) s;
                      s2 = sendTo i (Joined i nm') s1
                  in broadcastState s2)
           | TakeSeat n \<Rightarrow> takeSeat i player n s
           | LeaveSeat \<Rightarrow> leaveSeat i player s
           | StartGame \<Rightarrow> startGame e s
           | Action a amount \<Rightarrow> processAction hv (now e) i a amount s
           | Other \<Rightarrow> Inr s))"

text \<open>The \<open>close\<close> handler of the connection of player \<open>i\<close>.\<close>

definition onClose :: "(card option list \<Rightarrow> int) \<Rightarrow> env \<Rightarrow> pid \<Rightarrow> server \<Rightarrow> error + server" where
  "onClose hv e i s =
     (case lookup s i of
        None \<Rightarrow> Inr s
      | Some p0 \<Rightarrow>
          (let s1 = logToAll (LogDisconnected (name p0)) s;
               r = (case game s1 of
                      None \<Rightarrow> Inr s1
                    | Some g \<Rightarrow>
                        (let s2 = updPlayer i (\<lambda>p. p\<lparr>folded := True, active := False\<rparr>) s1
                         in bindE
                              (if turnPlayerId g = Some i
                               then advanceTurnAfterAction hv (now e) ''fold'' (clearTurnTimer s2)
                               else Inr s2)
                              (\<lambda>s3. case game s3 of
                                       None \<Rightarrow> Inl TypeError
                                     | Some g3 \<Rightarrow>
                                         if numActive s3 g3 \<le> 1 then awardPotAndEnd s3
                                         else Inr s3)))
           in bindE r (\<lambda>s4.
                (let s5 = (case seat p0 of None \<Rightarrow> s4 | Some n \<Rightarrow> setSeat n None s4);
                     s6 = s5\<lparr>players := filter (\<lambda>(k, p). k \<noteq> i) (players s5)\<rparr>
                 in broadcastState s6))))"

text \<open>
  The callback of the turn timer, when the pending timeout expires. The callback counts the
  contesting players of the Round it has captured, which is the current Round (see
  \<open>turnTimer\<close>); a pending timer without any Round does not arise, and the model stops
  there with \<open>Inl\<close>.
\<close>

definition onTimeout :: "(card option list \<Rightarrow> int) \<Rightarrow> env \<Rightarrow> server \<Rightarrow> error + server" where
  "onTimeout hv e s =
     (case turnTimer s of
        None \<Rightarrow> Inr s
      | Some curPid \<Rightarrow>
          (let s0 = s\<lparr>turnTimer := None\<rparr>
           in case lookup s0 curPid of
                None \<Rightarrow> Inr s0
              | Some p \<Rightarrow>
                  if folded p then Inr s0
                  else
                    (let s1 = updPlayer curPid (\<lambda>p. p\<lparr>folded := True\<rparr>) s0;
                         s2 = logToAll (LogTimedOut (name p)) s1
                     in case game s2 of
                          None \<Rightarrow> Inl TypeError
                        | Some g \<Rightarrow>
                            if numActive s2 g \<le> 1 then awardPotAndEnd s2
                            else advanceTurnAfterAction hv (now e) ''fold'' s2)))"

subsection \<open>Runs\<close>

datatype event =
    Connect
  | Message pid inbound
  | Close pid
  | Timeout

definition step ::
  "(card option list \<Rightarrow> int) \<Rightarrow> env \<times> event \<Rightarrow> server \<Rightarrow> error + server" where
  "step hv ee s =
     (case snd ee of
        Connect \<Rightarrow> connection (fst ee) s
      | Message i d \<Rightarrow> onMessage hv (fst ee) i d s
      | Close i \<Rightarrow> onClose hv (fst ee) i s
      | Timeout \<Rightarrow> onTimeout hv (fst ee) s)"

fun run ::
  "(card option list \<Rightarrow> int) \<Rightarrow> (env \<times> event) list \<Rightarrow> server \<Rightarrow> error + server" where
  "run hv [] s = Inr s"
| "run hv (ee # ees) s = bindE (step hv ee s) (run hv ees)"

text \<open>The chips in play: the stacks of all players and the pot of the Round, if there is one.\<close>

definition stackSum :: "(pid \<times> player) list \<Rightarrow> int" where
  "stackSum ps = sum_list (map (\<lambda>(k, p). chips p) ps)"

definition potOf :: "game option \<Rightarrow> int" where
  "potOf x = (case x of None \<Rightarrow> 0 | Some g \<Rightarrow> pot g)"

definition totalChips :: "server \<Rightarrow> int" where
  "totalChips s = stackSum (players s) + potOf (game s)"

text \<open>The ids of the winners of a showdown.\<close>

definition winnerIds :: "(card option list \<Rightarrow> int) \<Rightarrow> server \<Rightarrow> game \<Rightarrow> pid list" where
  "winnerIds hv s g = map fst (winnerPlayers hv s g)"


subsection \<open>Concrete runs used as examples\<close>

text \<open>
  A hand value under which all hands tie, an environment with clock 0 and all random draws
  0, and the state a run of events leaves behind (the initial state, should the run stop at
  an exception).
\<close>

definition hvZero :: "card option list \<Rightarrow> int" where
  "hvZero cs = 0"

definition drawZero :: "nat \<Rightarrow> nat" where
  "drawZero i = 0"

definition envAt :: "string \<Rightarrow> env" where
  "envAt u = \<lparr>now = 0, uuid = u, random = drawZero\<rparr>"

definition after :: "(env \<times> event) list \<Rightarrow> server" where
  "after evs = (case run hvZero evs initialServer of Inl e \<Rightarrow> initialServer | Inr s \<Rightarrow> s)"

definition stackAndBet :: "server \<Rightarrow> pid \<Rightarrow> (int \<times> int) option" where
  "stackAndBet s i = map_option (\<lambda>p. (chips p, bet p)) (lookup s i)"

text \<open>Players a and b connect; a takes seat 1 of the table (index 0).\<close>

definition oneSeated :: "(env \<times> event) list" where
  "oneSeated =
     [(envAt ''a'', Connect), (envAt ''b'', Connect), (envAt [], Message ''a'' (TakeSeat 0))]"

text \<open>Then b takes the next seat and a hand is started: a is small blind, b big blind.\<close>

definition twoSeated :: "(env \<times> event) list" where
  "twoSeated = oneSeated @ [(envAt [], Message ''b'' (TakeSeat 1))]"

definition headsUp :: "(env \<times> event) list" where
  "headsUp = twoSeated @ [(envAt ''g1'', Message ''a'' StartGame)]"

definition twoRaises :: "(env \<times> event) list" where
  "twoRaises =
     [(envAt [], Message ''a'' (Action ''raise'' 975)),
      (envAt [], Message ''b'' (Action ''raise'' 975))]"

text \<open>
  In that hand a raises and is left with 5 chips, b raises all-in, a folds; the button
  moves on and the next hand starts with a, holding 5 chips, as big blind.
\<close>

definition shortBlind :: "(env \<times> event) list" where
  "shortBlind =
     headsUp @
     [(envAt [], Message ''a'' (Action ''raise'' 975)),
      (envAt [], Message ''b'' (Action ''raise'' 975)),
      (envAt [], Message ''a'' (Action ''fold'' 0))]"

text \<open>
  Three players at seats 0, 1, 2. The first hand ends by two folds and moves the button to
  seat 1; in the second hand a and b call, which completes the preflop street.
\<close>

definition threeSeated :: "(env \<times> event) list" where
  "threeSeated =
     [(envAt ''a'', Connect), (envAt ''b'', Connect), (envAt ''c'', Connect),
      (envAt [], Message ''a'' (TakeSeat 0)), (envAt [], Message ''b'' (TakeSeat 1)),
      (envAt [], Message ''c'' (TakeSeat 2))]"

definition threeStarted :: "(env \<times> event) list" where
  "threeStarted = threeSeated @ [(envAt ''g1'', Message ''a'' StartGame)]"

text \<open>
  A hand of the three players that reaches the showdown: c raises to 41 and is called
  twice, folds on the flop, and a and b check to the end with a pot of 123.
\<close>

definition toShowdown :: "(env \<times> event) list" where
  "toShowdown =
     [(envAt [], Message ''c'' (Action ''raise'' 21)),
      (envAt [], Message ''a'' (Action ''call'' 0)),
      (envAt [], Message ''b'' (Action ''call'' 0)),
      (envAt [], Message ''b'' (Action ''check'' 0)),
      (envAt [], Message ''c'' (Action ''fold'' 0)),
      (envAt [], Message ''a'' (Action ''check'' 0)),
      (envAt [], Message ''b'' (Action ''check'' 0)),
      (envAt [], Message ''a'' (Action ''check'' 0)),
      (envAt [], Message ''b'' (Action ''check'' 0)),
      (envAt [], Message ''a'' (Action ''check'' 0))]"

definition secondHandFlop :: "(env \<times> event) list" where
  "secondHandFlop =
     threeSeated @
     [(envAt ''g1'', Message ''a'' StartGame),
      (envAt [], Message ''c'' (Action ''fold'' 0)),
      (envAt [], Message ''a'' (Action ''fold'' 0)),
      (envAt ''g2'', Message ''a'' StartGame),
      (envAt [], Message ''a'' (Action ''call'' 0)),
      (envAt [], Message ''b'' (Action ''call'' 0))]"

text \<open>The player whose turn it is, and that player's seat.\<close>

definition turnPlayer :: "server \<Rightarrow> pid option" where
  "turnPlayer s =
     (case game s of
        None \<Rightarrow> None
      | Some g \<Rightarrow>
          if seatOrder g = [] then None
          else Some (pId (seatOrder g ! (turnIndex g mod length (seatOrder g)))))"

definition seatOf :: "server \<Rightarrow> pid \<Rightarrow> nat option" where
  "seatOf s i = (case lookup s i of None \<Rightarrow> None | Some p \<Rightarrow> seat p)"

definition streetBets :: "server \<Rightarrow> int list" where
  "streetBets s = map (\<lambda>(k, p). bet p) (players s)"

definition roundView :: "server \<Rightarrow> (stage \<times> int \<times> int \<times> int \<times> nat \<times> pid list) option" where
  "roundView s =
     map_option
       (\<lambda>g. (stage g, currentBet g, minRaise g, actionCount g, turnIndex g, map pId (seatOrder g)))
       (game s)"

definition stacks :: "server \<Rightarrow> (pid \<times> int) list" where
  "stacks s = map (\<lambda>(k, p). (k, chips p)) (players s)"

text \<open>
  A table at the end of the river: a and b, both still in the hand, hold 950 and 949
  chips, and the pot is 101.
\<close>

definition showdownTable :: server where
  "showdownTable =
     \<lparr>seats = [Some ''a'', Some ''b'', None, None, None, None],
      players =
        [(''a'', \<lparr>name = ''Guest1'', seat = Some 0, chips = 950, cards = [Some ''2s'', Some ''7d''],
                  folded = False, active = True, bet = 0\<rparr>),
         (''b'', \<lparr>name = ''Guest2'', seat = Some 1, chips = 949, cards = [Some ''2h'', Some ''7c''],
                  folded = False, active = True, bet = 0\<rparr>)],
      game = Some
        \<lparr>gid = ''g1'', deck = [], 
         community = [Some ''Ah'', Some ''Kh'', Some ''Qh'', Some ''Jh'', Some ''Th''],
         pot = 101, smallBlind = 10, bigBlind = 20, gameDealerIndex = 0,
         seatOrder = [\<lparr>pId = ''a'', idx = 0\<rparr>, \<lparr>pId = ''b'', idx = 1\<rparr>], stage = River,
         currentBet = 0, minRaise = 20, actionCount = 0, turnIndex = 1, toCall = 0,
         turnEnd = Some 20000, showdownComplete = False, turnPlayerId = None\<rparr>,
      dealerIndex = 0, turnTimer = Some ''b'', sent = []\<rparr>"

text \<open>
  A hand value that ranks hands: the score the evaluator of the repository gives to the
  seven cards of a player.
\<close>

definition hvScore :: "card option list \<Rightarrow> int" where
  "hvScore cs =
     (case evaluate7 (map (\<lambda>c. case c of None \<Rightarrow> [] | Some x \<Rightarrow> x) cs) of
        Inl e \<Rightarrow> - 1
      | Inr b \<Rightarrow> bscore b)"

text \<open>
  Random draws under which the shuffle leaves, from the top of the deck: 2s, 2h, 3s, then
  7d, 7c, 8d for the three players, and after each burnt card the board Ah Kh Qh, Jh, Th.
  The board is a royal flush, so the best five cards of every player are the board and all
  hands that reach the showdown tie, whatever ranks poker hands.
\<close>

definition drawRoyal :: "nat \<Rightarrow> nat" where
  "drawRoyal i =
     (if 38 \<le> i then [33, 16, 37, 12, 41, 8, 4, 8, 26, 23, 22, 4, 1, 0] ! (i - 38) else i)"

definition envRoyal :: "string \<Rightarrow> env" where
  "envRoyal u = \<lparr>now = 0, uuid = u, random = drawRoyal\<rparr>"

definition royalStarted :: "(env \<times> event) list" where
  "royalStarted = threeSeated @ [(envRoyal ''g1'', Message ''a'' StartGame)]"

definition afterScore :: "(env \<times> event) list \<Rightarrow> server" where
  "afterScore evs = (case run hvScore evs initialServer of Inl e \<Rightarrow> initialServer | Inr s \<Rightarrow> s)"

definition holeCards :: "server \<Rightarrow> (pid \<times> card option list) list" where
  "holeCards s = map (\<lambda>(k, p). (k, cards p)) (players s)"

definition board :: "server \<Rightarrow> card option list" where
  "board s = (case game s of None \<Rightarrow> [] | Some g \<Rightarrow> community g)"


text \<open>The fold that ends a heads-up hand before any flop: a, first to act, folds.\<close>

definition foldOut :: "(env \<times> event) list" where
  "foldOut = [(envAt [], Message ''a'' (Action ''fold'' 0))]"

subsection \<open>Notions used to state the properties of a hand\<close>

text \<open>The players object has one entry per key.\<close>

definition keysOK :: "server \<Rightarrow> bool" where
  "keysOK s = distinct (map fst (players s))"

text \<open>
  \<open>sameRound s s'\<close>: a Round in \<open>s'\<close> is the Round of \<open>s\<close>, with the same \<open>seatOrder\<close>
  and the same \<open>turnPlayerId\<close>.
\<close>

definition sameRound :: "server \<Rightarrow> server \<Rightarrow> bool" where
  "sameRound s s' =
     (case game s' of
        None \<Rightarrow> True
      | Some g' \<Rightarrow>
          (case game s of
             None \<Rightarrow> False
           | Some g \<Rightarrow> turnPlayerId g' = turnPlayerId g \<and> seatOrder g' = seatOrder g))"

text \<open>
  \<open>keeps\<close>: a step that neither adds nor removes players or chips. \<open>loses\<close>: a step
  that adds no chips, and removes none unless it ends the Round.
\<close>

definition keeps :: "server \<Rightarrow> server \<Rightarrow> bool" where
  "keeps s s' =
     (map fst (players s') = map fst (players s) \<and> sameRound s s' \<and>
      (if keysOK s then totalChips s' = totalChips s else True))"

definition loses :: "server \<Rightarrow> server \<Rightarrow> bool" where
  "loses s s' =
     (map fst (players s') = map fst (players s) \<and> sameRound s s' \<and>
      (if keysOK s
       then totalChips s' \<le> totalChips s \<and> (if game s' = None then True else totalChips s' = totalChips s)
       else True))"

text \<open>The events of a hand in progress: the actions of the players and the timeouts.\<close>

definition handEvent :: "env \<times> event \<Rightarrow> bool" where
  "handEvent ee =
     (case snd ee of
        Message i d \<Rightarrow> (case d of Action a n \<Rightarrow> True | _ \<Rightarrow> False)
      | Timeout \<Rightarrow> True
      | _ \<Rightarrow> False)"

text \<open>
  The two seats that post the blinds of the next hand are held by two different players
  with at least 10 and at least 20 chips.
\<close>

definition blindsCovered :: "server \<Rightarrow> bool" where
  "blindsCovered s =
     (let order = mkSeatOrder (seats s) (dealerIndex s)
      in 2 \<le> length order \<and> pId (order ! 0) \<noteq> pId (order ! 1) \<and>
         (case lookup s (pId (order ! 0)) of None \<Rightarrow> False | Some p \<Rightarrow> 10 \<le> chips p) \<and>
         (case lookup s (pId (order ! 1)) of None \<Rightarrow> False | Some p \<Rightarrow> 20 \<le> chips p))"

text \<open>
  The Round, if there is one, has seats in \<open>seatOrder\<close> and no \<open>turnPlayerId\<close>.
\<close>

definition roundOK :: "server \<Rightarrow> bool" where
  "roundOK s =
     (case game s of None \<Rightarrow> True | Some g \<Rightarrow> turnPlayerId g = None \<and> seatOrder g \<noteq> [])"

text \<open>
  The \<open>close\<close> handler without its branch on \<open>turnPlayerId\<close>: the player is marked
  folded and inactive, the pot is awarded if at most one contesting player remains, the
  seat is freed and the player removed.
\<close>

definition onCloseNoBranch :: "pid \<Rightarrow> server \<Rightarrow> error + server" where
  "onCloseNoBranch i s =
     (case lookup s i of
        None \<Rightarrow> Inr s
      | Some p0 \<Rightarrow>
          (let s1 = logToAll (LogDisconnected (name p0)) s;
               r = (case game s1 of
                      None \<Rightarrow> Inr s1
                    | Some g \<Rightarrow>
                        (let s2 = updPlayer i (\<lambda>p. p\<lparr>folded := True, active := False\<rparr>) s1
                         in if numActive s2 g \<le> 1 then awardPotAndEnd s2 else Inr s2))
           in bindE r (\<lambda>s4.
                (let s5 = (case seat p0 of None \<Rightarrow> s4 | Some n \<Rightarrow> setSeat n None s4);
                     s6 = s5\<lparr>players := filter (\<lambda>(k, p). k \<noteq> i) (players s5)\<rparr>
                 in broadcastState s6))))"

text \<open>The state in which the \<open>close\<close> handler has marked the leaving player.\<close>

definition leaving :: "pid \<Rightarrow> server \<Rightarrow> server" where
  "leaving i s = updPlayer i (\<lambda>p. p\<lparr>folded := True, active := False\<rparr>) s"

text \<open>
  The number of showdowns revealed so far: \<open>finishShowdown\<close> is the only place that
  broadcasts a \<open>reveal\<close> message.
\<close>

definition isReveal :: "out \<Rightarrow> bool" where
  "isReveal x =
     (case x of
        Broadcast m \<Rightarrow> (case m of Reveal h c \<Rightarrow> True | _ \<Rightarrow> False)
      | SendTo i m \<Rightarrow> False)"

definition reveals :: "server \<Rightarrow> nat" where
  "reveals s = length (filter isReveal (sent s))"

text \<open>\<open>calm\<close>: a step that keeps the players and the chips and reveals no showdown.\<close>

definition calm :: "server \<Rightarrow> server \<Rightarrow> bool" where
  "calm s s' = (keeps s s' \<and> reveals s' = reveals s)"

text \<open>
  \<open>settles\<close>: a step that keeps the chips and reveals no showdown, or else runs one
  showdown, from a state \<open>s3\<close> that still holds the chips of \<open>s\<close>, and ends the Round with
  the chips of \<open>s\<close> less the remainder of the pot divided by the number of winners.
\<close>

definition settles :: "(card option list \<Rightarrow> int) \<Rightarrow> server \<Rightarrow> server \<Rightarrow> bool" where
  "settles hv s s' =
     (map fst (players s') = map fst (players s) \<and> sameRound s s' \<and>
      (if keysOK s
       then (reveals s' = reveals s \<and> totalChips s' = totalChips s) \<or>
            (reveals s' = reveals s + 1 \<and> game s' = None \<and>
             (\<exists>s3 g s4. calm s s3 \<and> game s3 = Some g \<and> activePlayers s3 g \<noteq> [] \<and>
                finishShowdown hv s3 = Inr s4 \<and> calm s4 s' \<and>
                totalChips s' = totalChips s - pot g mod int (length (winnerIds hv s3 g))))
       else True))"

text \<open>
  The numbers of the code are doubles. On integers of magnitude below \<open>2^53\<close> their sums,
  differences, comparisons and the floor of a quotient are exact, and there the integer
  arithmetic of the model is the arithmetic of the code. \<open>small\<close> bounds the numbers of a
  state, and \<open>smallEvent\<close> the amount of an action, by \<open>2^48\<close>, which keeps every number a
  handler computes from them below \<open>2^53\<close>. \<open>states\<close> lists the states a run goes through.
\<close>

definition limit :: int where
  "limit = 281474976710656"

definition small :: "server \<Rightarrow> bool" where
  "small s =
     (list_all (\<lambda>(k, p). \<bar>chips p\<bar> \<le> limit \<and> \<bar>bet p\<bar> \<le> limit) (players s) \<and>
      (case game s of
         None \<Rightarrow> True
       | Some g \<Rightarrow> \<bar>pot g\<bar> \<le> limit \<and> \<bar>currentBet g\<bar> \<le> limit \<and> \<bar>minRaise g\<bar> \<le> limit))"

definition smallEvent :: "env \<times> event \<Rightarrow> bool" where
  "smallEvent ee =
     (case snd ee of
        Message i d \<Rightarrow> (case d of Action a n \<Rightarrow> \<bar>n\<bar> \<le> limit | _ \<Rightarrow> True)
      | _ \<Rightarrow> True)"

fun states :: "(card option list \<Rightarrow> int) \<Rightarrow> (env \<times> event) list \<Rightarrow> server \<Rightarrow> server list" where
  "states hv [] s = [s]"
| "states hv (ee # ees) s =
     s # (case step hv ee s of Inl e \<Rightarrow> [] | Inr s' \<Rightarrow> states hv ees s')"


section \<open>Properties of the hand evaluator\<close>

subsection \<open>The score of a five-card hand\<close>

lemma indexOf_bounds: "- 1 \<le> indexOf xs x \<and> indexOf xs x < int (length xs)"
  by (induction xs) (auto simp: Let_def)

lemma indexOf_member: "x \<in> set xs \<Longrightarrow> 0 \<le> indexOf xs x"
  by (induction xs) (auto simp: Let_def)

lemma rankValue_bounds: "- 1 \<le> rankValue r \<and> rankValue r \<le> 12"
proof (cases r)
  case None
  then show ?thesis by (simp add: rankValue_def)
next
  case (Some c)
  have "length RANKS = 13" by (simp add: RANKS_def)
  then show ?thesis using Some indexOf_bounds [of RANKS c] by (simp add: rankValue_def)
qed

lemma isCard_rankValue: "isCard c \<Longrightarrow> 0 \<le> rankValue (charAt c 0)"
  by (auto simp: isCard_def charAt_def rankValue_def indexOf_member split: list.splits)

lemma straightLoop_ok:
  "\<forall>i \<in> set is. i + 4 < length values \<Longrightarrow> \<forall>v \<in> set values. - 1 \<le> v \<and> v \<le> 12 \<Longrightarrow>
   okHigh st \<Longrightarrow> okHigh (straightLoop values is st)"
proof (induction "is" arbitrary: st)
  case Nil
  then show ?case by simp
next
  case (Cons i "is")
  have "values ! (i + 4) \<in> set values" using Cons.prems(1) by simp
  then have "okHigh (True, Some (values ! (i + 4)))"
    using Cons.prems(2) by (simp add: okHigh_def)
  then show ?case using Cons by simp
qed

lemma straightCheck_ok: "okHigh (straightCheck u)"
proof -
  let ?vs = "sort (map rankValue u)"
  have b: "\<forall>v \<in> set ?vs. - 1 \<le> v \<and> v \<le> 12" using rankValue_bounds by auto
  have i: "\<forall>i \<in> set [0 ..< length ?vs - 4]. i + 4 < length ?vs" by auto
  have "okHigh (straightLoop ?vs [0 ..< length ?vs - 4] (False, None))"
    by (rule straightLoop_ok [OF i b]) (simp add: okHigh_def)
  moreover have "okHigh (True, Some 3)" by (simp add: okHigh_def)
  moreover have "okHigh (False, None)" by (simp add: okHigh_def)
  ultimately show ?thesis unfolding straightCheck_def Let_def by presburger
qed

lemma evaluate5_classify:
  assumes "straightCheck (uniq (sortRanks (map (\<lambda>c. charAt c 0) hand))) = (st, hs)"
  shows "evaluate5 hand =
    classify st hs
      (case map (\<lambda>c. charAt c 1) hand of [] \<Rightarrow> True
       | s0 # _ \<Rightarrow> list_all (\<lambda>s. s = s0) (map (\<lambda>c. charAt c 1) hand))
      (sort_key (\<lambda>(r, c). (- int c, - rankValue r))
        (entries (sortRanks (map (\<lambda>c. charAt c 0) hand))))
      (sortRanks (map (\<lambda>c. charAt c 0) hand))"
  unfolding evaluate5_def classify_def Let_def assms by simp

lemma classify_form:
  assumes "classify st hs flush countsArr ranks = Inr r" and "okHigh (st, hs)"
  shows "(handName r = ''Royal Flush'' \<and> score r = 9000000) \<or>
         scored r 8000000 ''Straight Flush'' \<or> scored r 7000000 ''Four of a Kind'' \<or>
         scored r 6000000 ''Full House'' \<or> scored r 5000000 ''Flush'' \<or>
         scored r 4000000 ''Straight'' \<or> scored r 3000000 ''Three of a Kind'' \<or>
         scored r 2000000 ''Two Pair'' \<or> scored r 1000000 ''One Pair'' \<or>
         (scored r 0 ''High Card'' \<and> score r = rankValue (lastRank ranks))"
proof -
  have hs: "st \<Longrightarrow> scored \<lparr>score = base + the hs, handName = n\<rparr> base n" for base n
    using assms(2) by (auto simp: scored_def okHigh_def split: option.splits)
  have rv: "scored \<lparr>score = base + rankValue x, handName = n\<rparr> base n" for base n x
    using rankValue_bounds [of x] by (simp add: scored_def)
  have rv0: "scored \<lparr>score = rankValue x, handName = n\<rparr> 0 n" for n x
    using rankValue_bounds [of x] by (simp add: scored_def)
  show ?thesis
  proof (cases "st \<and> flush")
    case True
    then show ?thesis using assms(1) hs [of 8000000 "''Straight Flush''"]
      unfolding classify_def by (auto split: if_splits)
  next
    case False
    show ?thesis
    proof (cases countsArr)
      case Nil
      then show ?thesis using assms(1) False unfolding classify_def by simp
    next
      case (Cons e rest)
      obtain r0 c0 where e: "e = (r0, c0)" by (cases e)
      show ?thesis
        using assms(1) False hs [of 4000000 "''Straight''"] rv [of _ r0]
          rv [of _ "lastRank ranks"] rv0 [of "lastRank ranks"]
        unfolding classify_def Cons e Let_def
        by (auto split: if_splits)
    qed
  qed
qed

lemma classify_total:
  "countsArr \<noteq> [] \<Longrightarrow> \<exists>r. classify st hs flush countsArr ranks = Inr r"
  unfolding classify_def Let_def by (cases countsArr) (auto split: prod.splits)

lemma set_sortRanks: "set (sortRanks rs) = set rs"
  by (auto simp: sortRanks_def)

lemma sortRanks_Nil: "sortRanks rs = [] \<longleftrightarrow> rs = []"
  using set_sortRanks [of rs] by (metis set_empty)

lemma uniq_Nil: "uniq xs = [] \<longleftrightarrow> xs = []"
  by (simp add: uniq_def)

lemma entries_Nil: "entries ranks = [] \<longleftrightarrow> ranks = []"
proof -
  let ?keys = "uniq ranks"
  have "length (entries ranks) =
      length (filter isIndexKey ?keys) + length (filter (\<lambda>r. \<not> isIndexKey r) ?keys)"
    by (simp add: entries_def Let_def)
  also have "\<dots> = length ?keys" by (rule sum_length_filter_compl)
  finally have "length (entries ranks) = length ?keys" .
  then have "entries ranks = [] \<longleftrightarrow> ?keys = []" by (metis length_0_conv)
  then show ?thesis by (simp add: uniq_Nil)
qed

lemma evaluate5_total:
  assumes "hand \<noteq> []"
  shows "\<exists>r. evaluate5 hand = Inr r"
proof -
  let ?ranks = "sortRanks (map (\<lambda>c. charAt c 0) hand)"
  obtain st hs where sc: "straightCheck (uniq ?ranks) = (st, hs)"
    by (cases "straightCheck (uniq ?ranks)")
  have "?ranks \<noteq> []" using assms by (simp add: sortRanks_Nil)
  then have "entries ?ranks \<noteq> []" by (simp only: entries_Nil not_False_eq_True)
  then have "sort_key (\<lambda>(r, c). (- int c, - rankValue r)) (entries ?ranks) \<noteq> []"
    by (metis length_sort length_0_conv)
  then show ?thesis unfolding evaluate5_classify [OF sc] by (rule classify_total)
qed

lemma evaluate5_form:
  assumes "evaluate5 hand = Inr r"
  shows "(handName r = ''Royal Flush'' \<and> score r = 9000000) \<or>
         scored r 8000000 ''Straight Flush'' \<or> scored r 7000000 ''Four of a Kind'' \<or>
         scored r 6000000 ''Full House'' \<or> scored r 5000000 ''Flush'' \<or>
         scored r 4000000 ''Straight'' \<or> scored r 3000000 ''Three of a Kind'' \<or>
         scored r 2000000 ''Two Pair'' \<or> scored r 1000000 ''One Pair'' \<or>
         (scored r 0 ''High Card'' \<and>
          score r = rankValue (lastRank (sortRanks (map (\<lambda>c. charAt c 0) hand))))"
proof -
  let ?ranks = "sortRanks (map (\<lambda>c. charAt c 0) hand)"
  obtain st hs where sc: "straightCheck (uniq ?ranks) = (st, hs)"
    by (cases "straightCheck (uniq ?ranks)")
  have ok: "okHigh (st, hs)" using straightCheck_ok [of "uniq ?ranks"] sc by simp
  show ?thesis
    using assms unfolding evaluate5_classify [OF sc] by (rule classify_form [OF _ ok])
qed

lemma categoryRank_simps:
  "categoryRank ''Royal Flush'' = 8" "categoryRank ''Straight Flush'' = 8"
  "categoryRank ''Four of a Kind'' = 7" "categoryRank ''Full House'' = 6"
  "categoryRank ''Flush'' = 5" "categoryRank ''Straight'' = 4"
  "categoryRank ''Three of a Kind'' = 3" "categoryRank ''Two Pair'' = 2"
  "categoryRank ''One Pair'' = 1" "categoryRank ''High Card'' = 0"
  by (simp_all add: categoryRank_def)

lemma evaluate5_range:
  assumes "evaluate5 hand = Inr r"
  shows "handName r \<in> set categoryNames \<and>
         int (categoryRank (handName r)) * 1000000 - 1 \<le> score r \<and>
         (score r \<le> int (categoryRank (handName r)) * 1000000 + 12 \<or>
          (categoryRank (handName r) = 8 \<and> score r = 9000000))"
  using evaluate5_form [OF assms] unfolding scored_def
  by (elim disjE conjE) (simp_all add: categoryRank_simps categoryNames_def)

lemma evaluate5_score_order:
  assumes "evaluate5 h1 = Inr r1" and "evaluate5 h2 = Inr r2"
    and "categoryRank (handName r1) < categoryRank (handName r2)"
  shows "score r1 < score r2"
proof -
  let ?c1 = "categoryRank (handName r1)" and ?c2 = "categoryRank (handName r2)"
  have le8: "?c2 \<le> 8" unfolding categoryRank_def by simp
  have "int ?c1 + 1 \<le> int ?c2" using assms(3) by simp
  then have "(int ?c1 + 1) * 1000000 \<le> int ?c2 * 1000000" by simp
  moreover have "score r1 \<le> int ?c1 * 1000000 + 12"
    using evaluate5_range [OF assms(1)] assms(3) le8 by auto
  moreover have "int ?c2 * 1000000 - 1 \<le> score r2"
    using evaluate5_range [OF assms(2)] by simp
  ultimately show ?thesis by simp
qed

text \<open>
  Claim C6 (category ordering). Every five-card hand is classified by \<open>evaluate5\<close> into
  one of the named categories, and of two hands in different categories the one in the
  higher category (royal or straight flush, four of a kind, full house, flush, straight,
  three of a kind, two pair, one pair, high card, in this order) has the strictly greater
  score.
\<close>

theorem category_order:
  assumes "length h1 = 5" and "length h2 = 5"
  shows "\<exists>r1 r2. evaluate5 h1 = Inr r1 \<and> evaluate5 h2 = Inr r2 \<and>
           handName r1 \<in> set categoryNames \<and> handName r2 \<in> set categoryNames \<and>
           (categoryRank (handName r1) < categoryRank (handName r2) \<longrightarrow> score r1 < score r2)"
proof -
  have "h1 \<noteq> []" and "h2 \<noteq> []" using assms by auto
  then obtain r1 r2 where r: "evaluate5 h1 = Inr r1" "evaluate5 h2 = Inr r2"
    using evaluate5_total by blast
  have "handName r1 \<in> set categoryNames" "handName r2 \<in> set categoryNames"
    using evaluate5_range r by blast+
  then show ?thesis using r evaluate5_score_order [OF r] by blast
qed

theorem category_order_witness:
  "evaluate5 [''Ks'', ''Kh'', ''2d'', ''7c'', ''9s''] = Inr \<lparr>score = 1000011, handName = ''One Pair''\<rparr> \<and>
   evaluate5 [''2h'', ''7h'', ''9h'', ''Jh'', ''Kh''] = Inr \<lparr>score = 5000011, handName = ''Flush''\<rparr> \<and>
   categoryRank ''One Pair'' < categoryRank ''Flush'' \<and> (1000011 :: int) < 5000011"
proof -
  let ?h1 = "[''Ks'', ''Kh'', ''2d'', ''7c'', ''9s'']"
  let ?h2 = "[''2h'', ''7h'', ''9h'', ''Jh'', ''Kh'']"
  have e1: "evaluate5 ?h1 = Inr \<lparr>score = 1000011, handName = ''One Pair''\<rparr>" by code_simp
  have e2: "evaluate5 ?h2 = Inr \<lparr>score = 5000011, handName = ''Flush''\<rparr>" by code_simp
  have c: "categoryRank ''One Pair'' < categoryRank ''Flush''"
    by (simp add: categoryRank_simps)
  have "length ?h1 = 5" and "length ?h2 = 5" by simp_all
  from category_order [OF this] e1 e2 c
  have "(1000011 :: int) < 5000011" by auto
  with e1 e2 c show ?thesis by blast
qed


subsection \<open>The combinations and the best of seven\<close>

lemma ofLength_zero: "ofLength 0 xs = [[]]"
  by (induction xs) (simp_all add: ofLength_def Let_def filter_map o_def)

lemma ofLength_Nil: "0 < n \<Longrightarrow> ofLength n [] = []"
  by (simp add: ofLength_def)

lemma ofLength_Cons:
  "0 < n \<Longrightarrow> ofLength n (x # xs) = map (Cons x) (ofLength (n - 1) xs) @ ofLength n xs"
proof -
  assume "0 < n"
  then have "(\<lambda>ys. length (x # ys) = n) = (\<lambda>ys. length ys = n - 1)" by auto
  then show ?thesis by (simp add: ofLength_def Let_def filter_map o_def)
qed

lemma helper_ofLength:
  "(length combo \<le> k \<longrightarrow>
      helper cs k start combo = map ((@) combo) (ofLength (k - length combo) (drop start cs)))"
  "(length combo < k \<longrightarrow>
      helperLoop cs k i combo = map ((@) combo) (ofLength (k - length combo) (drop i cs)))"
proof (induction cs k start combo and cs k i combo rule: helper_helperLoop.induct)
  case (1 cs k start combo)
  show ?case
  proof (cases "length combo = k")
    case True
    then show ?thesis by (simp add: ofLength_zero)
  next
    case False
    then show ?thesis using 1 by simp
  qed
next
  case (2 cs k i combo)
  show ?case
  proof (cases "i < length cs")
    case True
    have d: "drop i cs = cs ! i # drop (i + 1) cs"
      using True by (simp add: Cons_nth_drop_Suc)
    show ?thesis
    proof
      assume lt: "length combo < k"
      have h1: "helper cs k (i + 1) (combo @ [cs ! i]) =
          map ((@) (combo @ [cs ! i])) (ofLength (k - length combo - 1) (drop (i + 1) cs))"
        using 2(1) [OF True] lt by simp
      have h2: "helperLoop cs k (i + 1) combo =
          map ((@) combo) (ofLength (k - length combo) (drop (i + 1) cs))"
        using 2(2) [OF True] lt by simp
      have "helperLoop cs k i combo =
          helper cs k (i + 1) (combo @ [cs ! i]) @ helperLoop cs k (i + 1) combo"
        using True by simp
      also have "\<dots> = map ((@) combo) (ofLength (k - length combo) (drop i cs))"
        unfolding h1 h2 d using lt by (simp add: ofLength_Cons o_def)
      finally show "helperLoop cs k i combo =
          map ((@) combo) (ofLength (k - length combo) (drop i cs))" .
    qed
  next
    case False
    then show ?thesis by (simp add: ofLength_Nil)
  qed
qed

lemma getCombinations_ofLength: "getCombinations cs k = ofLength k cs"
proof -
  have "map ((@) []) (ofLength k cs) = ofLength k cs" by (simp add: map_idI)
  then show ?thesis
    using helper_ofLength(1) [of "[]" k cs 0] unfolding getCombinations_def by simp
qed

lemma length_ofLength: "length (ofLength k xs) = length xs choose k"
proof (induction xs arbitrary: k)
  case Nil
  then show ?case by (cases k) (simp_all add: ofLength_def)
next
  case (Cons x xs)
  show ?case
  proof (cases k)
    case 0
    then show ?thesis by (simp add: ofLength_zero)
  next
    case (Suc m)
    then show ?thesis using Cons [of m] Cons [of "Suc m"] by (simp add: ofLength_Cons)
  qed
qed

lemma distinct_sets_ofLength:
  assumes "distinct xs"
  shows "distinct (map set (ofLength k xs))"
  unfolding ofLength_def using distinct_set_subseqs [OF assms]
  by (simp add: distinct_map_filter)

lemma sets_ofLength:
  assumes "distinct xs"
  shows "set ` set (ofLength k xs) = {S. S \<subseteq> set xs \<and> card S = k}"
proof (intro set_eqI iffI)
  fix S assume "S \<in> set ` set (ofLength k xs)"
  then obtain ys where ys: "ys \<in> set (subseqs xs)" "length ys = k" "S = set ys"
    by (auto simp: ofLength_def)
  have "distinct ys" using subseqs_distinctD [OF ys(1) assms] .
  then have "card S = k" using ys by (simp add: distinct_card)
  moreover have "S \<in> Pow (set xs)" using ys subseqs_powset [of xs] by blast
  ultimately show "S \<in> {S. S \<subseteq> set xs \<and> card S = k}" by simp
next
  fix S assume "S \<in> {S. S \<subseteq> set xs \<and> card S = k}"
  then have S: "S \<subseteq> set xs" "card S = k" by simp_all
  then obtain ys where ys: "ys \<in> set (subseqs xs)" "S = set ys"
    using subset_subseqs [of S xs] by auto
  have "distinct ys" using subseqs_distinctD [OF ys(1) assms] .
  then have "length ys = k" using S ys by (simp add: distinct_card)
  then show "S \<in> set ` set (ofLength k xs)" using ys by (auto simp: ofLength_def)
qed

lemma lastRank_member: "ranks \<noteq> [] \<Longrightarrow> lastRank ranks \<in> set ranks"
  by (simp add: lastRank_def)

lemma evaluate5_nonneg:
  assumes "evaluate5 hand = Inr r" and "hand \<noteq> []" and "\<forall>c \<in> set hand. isCard c"
  shows "0 \<le> score r"
proof -
  let ?ranks = "sortRanks (map (\<lambda>c. charAt c 0) hand)"
  have ne: "?ranks \<noteq> []" using assms(2) by (simp add: sortRanks_Nil)
  have "lastRank ?ranks \<in> set ?ranks" by (rule lastRank_member [OF ne])
  then obtain c where "c \<in> set hand" "lastRank ?ranks = charAt c 0"
    by (auto simp: set_sortRanks)
  then have "0 \<le> rankValue (lastRank ?ranks)" using assms(3) isCard_rankValue by simp
  then show ?thesis
    using evaluate5_form [OF assms(1)] unfolding scored_def by (elim disjE conjE) simp_all
qed

lemma bestLoop_max:
  assumes "\<forall>c \<in> set combos. \<exists>r. evaluate5 c = Inr r"
  shows "\<exists>b'. bestLoop combos b = Inr b' \<and> bscore b \<le> bscore b' \<and>
           (\<forall>c \<in> set combos. \<forall>r. evaluate5 c = Inr r \<longrightarrow> score r \<le> bscore b') \<and>
           (b' = b \<or> (bhand b' \<in> set combos \<and>
              evaluate5 (bhand b') = Inr \<lparr>score = bscore b', handName = bname b'\<rparr>))"
  using assms
proof (induction combos arbitrary: b)
  case Nil
  then show ?case by simp
next
  case (Cons combo combos)
  obtain r where r: "evaluate5 combo = Inr r" using Cons.prems by auto
  define b1 where
    "b1 = (if score r > bscore b
           then \<lparr>bscore = score r, bname = handName r, bhand = combo\<rparr> else b)"
  have step: "bestLoop (combo # combos) b = bestLoop combos b1" by (simp add: r b1_def)
  have b1: "bscore b \<le> bscore b1" "score r \<le> bscore b1"
    "b1 = b \<or> (bhand b1 = combo \<and> bscore b1 = score r \<and> bname b1 = handName r)"
    by (auto simp: b1_def)
  obtain b' where b': "bestLoop combos b1 = Inr b'" "bscore b1 \<le> bscore b'"
    "\<forall>c \<in> set combos. \<forall>r. evaluate5 c = Inr r \<longrightarrow> score r \<le> bscore b'"
    "b' = b1 \<or> (bhand b' \<in> set combos \<and>
              evaluate5 (bhand b') = Inr \<lparr>score = bscore b', handName = bname b'\<rparr>)"
    using Cons.IH [of b1] Cons.prems by auto
  have "\<forall>c \<in> set (combo # combos). \<forall>r. evaluate5 c = Inr r \<longrightarrow> score r \<le> bscore b'"
    using b'(2,3) b1(2) r by auto
  moreover have "b' = b \<or> (bhand b' \<in> set (combo # combos) \<and>
              evaluate5 (bhand b') = Inr \<lparr>score = bscore b', handName = bname b'\<rparr>)"
    using b'(4) b1(3) r by auto
  moreover have "bscore b \<le> bscore b'" using b1(1) b'(2) by simp
  ultimately show ?case unfolding step using b'(1) by blast
qed

text \<open>
  Claim C5 (best of 21). For seven distinct cards, \<open>getCombinations\<close> lists each of the
  C(7,5) = 21 five-card subsets exactly once, and \<open>evaluate7\<close> returns a score that is the
  greatest \<open>evaluate5\<close> score over these subsets, with a subset of the list that attains
  it and that subset's category name.
\<close>

theorem evaluate7_best:
  assumes "length cs = 7" and "distinct cs" and "\<forall>c \<in> set cs. isCard c"
  shows "length (getCombinations cs 5) = 21 \<and>
         distinct (map set (getCombinations cs 5)) \<and>
         set ` set (getCombinations cs 5) = {S. S \<subseteq> set cs \<and> card S = 5} \<and>
         (\<exists>b. evaluate7 cs = Inr b \<and>
            bhand b \<in> set (getCombinations cs 5) \<and>
            evaluate5 (bhand b) = Inr \<lparr>score = bscore b, handName = bname b\<rparr> \<and>
            (\<forall>combo \<in> set (getCombinations cs 5).
               \<exists>r. evaluate5 combo = Inr r \<and> score r \<le> bscore b))"
proof -
  let ?combos = "getCombinations cs 5"
  let ?b0 = "\<lparr>bscore = - 1, bname = [], bhand = []\<rparr>"
  have "(7::nat) choose 5 = 21" by (simp add: numeral_eq_Suc binomial_Suc_Suc)
  then have len: "length ?combos = 21"
    using assms(1) by (simp add: getCombinations_ofLength length_ofLength)
  have dist: "distinct (map set ?combos)"
    unfolding getCombinations_ofLength by (rule distinct_sets_ofLength [OF assms(2)])
  have sets: "set ` set ?combos = {S. S \<subseteq> set cs \<and> card S = 5}"
    unfolding getCombinations_ofLength by (rule sets_ofLength [OF assms(2)])
  have mem: "combo \<noteq> [] \<and> set combo \<subseteq> set cs" if "combo \<in> set ?combos" for combo
  proof -
    have "set combo \<in> {S. S \<subseteq> set cs \<and> card S = 5}" using that sets by blast
    then show ?thesis by auto
  qed
  have tot: "\<forall>c \<in> set ?combos. \<exists>r. evaluate5 c = Inr r"
    using mem evaluate5_total by blast
  obtain b where b: "bestLoop ?combos ?b0 = Inr b"
    "\<forall>c \<in> set ?combos. \<forall>r. evaluate5 c = Inr r \<longrightarrow> score r \<le> bscore b"
    "b = ?b0 \<or> (bhand b \<in> set ?combos \<and>
        evaluate5 (bhand b) = Inr \<lparr>score = bscore b, handName = bname b\<rparr>)"
    using bestLoop_max [OF tot, of ?b0] by blast
  have "?combos \<noteq> []" using len by auto
  then obtain c0 where c0: "c0 \<in> set ?combos" by (cases ?combos) auto
  then obtain r0 where r0: "evaluate5 c0 = Inr r0" using tot by blast
  have "0 \<le> score r0"
    using evaluate5_nonneg [OF r0] mem [OF c0] assms(3) by blast
  then have "0 \<le> bscore b" using b(2) c0 r0 by force
  then have "b \<noteq> ?b0" by auto
  then have att: "bhand b \<in> set ?combos"
    "evaluate5 (bhand b) = Inr \<lparr>score = bscore b, handName = bname b\<rparr>"
    using b(3) by blast+
  have "\<forall>combo \<in> set ?combos. \<exists>r. evaluate5 combo = Inr r \<and> score r \<le> bscore b"
    using tot b(2) by blast
  then show ?thesis using len dist sets b(1) att unfolding evaluate7_def by auto
qed

theorem evaluate7_best_witness:
  "length [''Ah'', ''Kh'', ''Qh'', ''Jh'', ''Th'', ''2c'', ''3c''] = 7 \<and>
   length (getCombinations [''Ah'', ''Kh'', ''Qh'', ''Jh'', ''Th'', ''2c'', ''3c''] 5) = 21 \<and>
   evaluate7 [''Ah'', ''Kh'', ''Qh'', ''Jh'', ''Th'', ''2c'', ''3c''] =
     Inr \<lparr>bscore = 9000000, bname = ''Royal Flush'',
          bhand = [''Ah'', ''Kh'', ''Qh'', ''Jh'', ''Th'']\<rparr> \<and>
   evaluate5 [''Ah'', ''Kh'', ''Qh'', ''Jh'', ''Th''] =
     Inr \<lparr>score = 9000000, handName = ''Royal Flush''\<rparr>"
proof -
  let ?cs = "[''Ah'', ''Kh'', ''Qh'', ''Jh'', ''Th'', ''2c'', ''3c'']"
  have l: "length ?cs = 7" by simp
  have d: "distinct ?cs" by simp
  have v: "\<forall>c \<in> set ?cs. isCard c" by (simp add: isCard_def RANKS_def)
  have e: "evaluate7 ?cs = Inr \<lparr>bscore = 9000000, bname = ''Royal Flush'',
          bhand = [''Ah'', ''Kh'', ''Qh'', ''Jh'', ''Th'']\<rparr>" by code_simp
  from evaluate7_best [OF l d v] e show ?thesis by auto
qed


section \<open>Properties of the table server\<close>

subsection \<open>Basic facts about the helpers\<close>

declare showNat.simps [simp del]

lemma sendTo_present:
  "lookup s i = Some p \<Longrightarrow> sendTo i m s = s\<lparr>sent := sent s @ [SendTo i m]\<rparr>"
  by (simp add: sendTo_def)

lemma lookup_clearTurnTimer: "lookup (clearTurnTimer s) i = lookup s i"
  by (simp add: clearTurnTimer_def updGame_def lookup_def)

lemma map_of_upd:
  "map_of (map (\<lambda>(k, p). if k = i then (k, f p) else (k, p)) ps) k =
     (if k = i then map_option f (map_of ps k) else map_of ps k)"
  by (induction ps) auto

lemma lookup_updPlayer:
  "lookup (updPlayer i f s) k = (if k = i then map_option f (lookup s k) else lookup s k)"
  by (simp add: lookup_def updPlayer_def map_of_upd)

lemma lookup_setSeat: "lookup (setSeat n x s) k = lookup s k"
  by (simp add: lookup_def setSeat_def)

lemma lookup_broadcast: "lookup (broadcast m s) k = lookup s k"
  by (simp add: lookup_def broadcast_def)

lemma broadcastState_idle:
  "game s = None \<Longrightarrow> broadcastState s = Inr (s\<lparr>sent := sent s @ [Broadcast StateMsg]\<rparr>)"
  by (simp add: broadcastState_def broadcast_def)


subsection \<open>What the helpers leave unchanged\<close>

named_theorems frame

lemma broadcast_frame [frame]:
  "players (broadcast m s) = players s" "game (broadcast m s) = game s"
  "seats (broadcast m s) = seats s" "dealerIndex (broadcast m s) = dealerIndex s"
  "turnTimer (broadcast m s) = turnTimer s"
  by (simp_all add: broadcast_def)

lemma sendTo_frame [frame]:
  "players (sendTo i m s) = players s" "game (sendTo i m s) = game s"
  "seats (sendTo i m s) = seats s" "dealerIndex (sendTo i m s) = dealerIndex s"
  "turnTimer (sendTo i m s) = turnTimer s"
  by (simp_all add: sendTo_def)

lemma logToAll_frame [frame]:
  "players (logToAll l s) = players s" "game (logToAll l s) = game s"
  "seats (logToAll l s) = seats s" "dealerIndex (logToAll l s) = dealerIndex s"
  "turnTimer (logToAll l s) = turnTimer s"
  by (simp_all add: logToAll_def broadcast_def)

lemma updGame_frame [frame]:
  "players (updGame f s) = players s" "game (updGame f s) = map_option f (game s)"
  "seats (updGame f s) = seats s" "dealerIndex (updGame f s) = dealerIndex s"
  "turnTimer (updGame f s) = turnTimer s"
  by (simp_all add: updGame_def)

lemma clearTurnTimer_frame [frame]:
  "players (clearTurnTimer s) = players s"
  "game (clearTurnTimer s) = map_option (\<lambda>g. g\<lparr>turnEnd := None\<rparr>) (game s)"
  "seats (clearTurnTimer s) = seats s" "dealerIndex (clearTurnTimer s) = dealerIndex s"
  "turnTimer (clearTurnTimer s) = None"
  by (simp_all add: clearTurnTimer_def updGame_def)

lemma updPlayer_frame [frame]:
  "game (updPlayer i f s) = game s"
  "seats (updPlayer i f s) = seats s" "dealerIndex (updPlayer i f s) = dealerIndex s"
  "turnTimer (updPlayer i f s) = turnTimer s"
  "map fst (players (updPlayer i f s)) = map fst (players s)"
  by (simp_all add: updPlayer_def o_def case_prod_unfold)

lemma upd_absent:
  "i \<notin> fst ` set ps \<Longrightarrow> map (\<lambda>(k, p). if k = i then (k, f p) else (k, p)) ps = ps"
  by (induction ps) auto

lemma stackSum_upd:
  "distinct (map fst ps) \<Longrightarrow> map_of ps i = Some p \<Longrightarrow>
   stackSum (map (\<lambda>(k, p). if k = i then (k, f p) else (k, p)) ps) =
     stackSum ps + chips (f p) - chips p"
proof (induction ps)
  case Nil
  then show ?case by simp
next
  case (Cons a ps)
  obtain k q where a: "a = (k, q)" by (cases a)
  show ?case
  proof (cases "k = i")
    case True
    then have "i \<notin> fst ` set ps" using Cons.prems(1) a by auto
    then have "map (\<lambda>(k, p). if k = i then (k, f p) else (k, p)) ps = ps"
      by (rule upd_absent)
    then show ?thesis using True a Cons.prems(2) by (simp add: stackSum_def)
  next
    case False
    then show ?thesis using a Cons by (simp add: stackSum_def)
  qed
qed

lemma stackSum_updPlayer:
  "distinct (map fst (players s)) \<Longrightarrow> lookup s i = Some p \<Longrightarrow>
   stackSum (players (updPlayer i f s)) = stackSum (players s) + chips (f p) - chips p"
  by (simp add: updPlayer_def lookup_def stackSum_upd)

lemma updPlayer_absent: "lookup s i = None \<Longrightarrow> updPlayer i f s = s"
proof -
  assume "lookup s i = None"
  then have "i \<notin> fst ` set (players s)" by (simp add: lookup_def map_of_eq_None_iff)
  then have "map (\<lambda>(k, p). if k = i then (k, f p) else (k, p)) (players s) = players s"
    by (rule upd_absent)
  then show ?thesis by (simp add: updPlayer_def)
qed

lemma activePlayers_lookup:
  "(i, p) \<in> set (activePlayers s g) \<Longrightarrow> lookup s i = Some p \<and> active p \<and> \<not> folded p"
  by (auto simp: activePlayers_def List.map_filter_def)

lemma activePlayers_cong:
  "players s' = players s \<Longrightarrow> seatOrder g' = seatOrder g \<Longrightarrow>
   activePlayers s' g' = activePlayers s g"
  by (simp add: activePlayers_def lookup_def)


subsection \<open>Rejected actions\<close>

text \<open>
  Claim C2 (turn legality). While a Round exists, an action of a player other than the one
  at \<open>turnIndex\<close> modulo the length of \<open>seatOrder\<close> is answered by the error
  "Not your turn" sent to that player, and nothing else changes: the Round with its pot,
  bets, stage, turn index and deadline, the stacks and the pending timer are as before.
\<close>

theorem not_your_turn:
  assumes "game s = Some g" and "seatOrder g \<noteq> []"
    and "pId (seatOrder g ! (turnIndex g mod length (seatOrder g))) \<noteq> playerId"
    and "lookup s playerId = Some p"
  shows "processAction hv t playerId action amount s =
           Inr (s\<lparr>sent := sent s @ [SendTo playerId (Error NotYourTurn)]\<rparr>)"
  using assms by (simp add: processAction_def Let_def sendTo_present)

theorem not_your_turn_witness:
  "turnPlayer (after headsUp) = Some ''a'' \<and>
   processAction hvZero 0 ''b'' ''raise'' 40 (after headsUp) =
     Inr ((after headsUp)\<lparr>sent := sent (after headsUp) @ [SendTo ''b'' (Error NotYourTurn)]\<rparr>)"
proof -
  let ?s = "after headsUp"
  have g: "game ?s = Some (the (game ?s))" by code_simp
  have o: "seatOrder (the (game ?s)) \<noteq> []" by code_simp
  have c: "pId (seatOrder (the (game ?s)) !
             (turnIndex (the (game ?s)) mod length (seatOrder (the (game ?s))))) \<noteq> ''b''"
    by code_simp
  have l: "lookup ?s ''b'' = Some (the (lookup ?s ''b''))" by code_simp
  have t: "turnPlayer ?s = Some ''a''" by code_simp
  show ?thesis using not_your_turn [OF g o c l, of hvZero 0 "''raise''" 40] t by simp
qed

text \<open>
  Claim C8 (raise floor). While a Round exists, a raise of the acting player by less than
  \<open>minRaise\<close> is answered by the error "Raise must be at least \<open>minRaise\<close>" sent to that
  player; the turn index, the action count, the pot, the bets and the stacks are as
  before, and the turn timer is armed again for the same player, with a new deadline.
\<close>

theorem raise_floor:
  assumes "game s = Some g" and "seatOrder g \<noteq> []"
    and "pId (seatOrder g ! (turnIndex g mod length (seatOrder g))) = playerId"
    and "lookup s playerId = Some p"
    and "amount < minRaise g"
  shows "processAction hv t playerId ''raise'' amount s =
           Inr (s\<lparr>game := Some (g\<lparr>turnEnd := Some (t + 20000)\<rparr>),
                  turnTimer := Some playerId,
                  sent := sent s @ [SendTo playerId (Error (RaiseAtLeast (minRaise g))),
                                    Broadcast (Turn playerId (t + 20000))]\<rparr>)"
proof -
  let ?s1 = "clearTurnTimer s"
  have l1: "lookup ?s1 playerId = Some p" using assms(4) by (simp add: lookup_clearTurnTimer)
  let ?s2 = "sendTo playerId (Error (RaiseAtLeast (minRaise g))) ?s1"
  have s2: "?s2 = ?s1\<lparr>sent := sent ?s1 @ [SendTo playerId (Error (RaiseAtLeast (minRaise g)))]\<rparr>"
    using l1 by (rule sendTo_present)
  have "processAction hv t playerId ''raise'' amount s = startTurnTimer t ?s2"
    using assms l1 by (simp add: processAction_def Let_def)
  also have "\<dots> = Inr (s\<lparr>game := Some (g\<lparr>turnEnd := Some (t + 20000)\<rparr>),
                  turnTimer := Some playerId,
                  sent := sent s @ [SendTo playerId (Error (RaiseAtLeast (minRaise g))),
                                    Broadcast (Turn playerId (t + 20000))]\<rparr>)"
    unfolding s2 using assms(1,2,3)
    by (simp add: startTurnTimer_def clearTurnTimer_def updGame_def broadcast_def Let_def)
  finally show ?thesis .
qed

theorem raise_floor_witness:
  "turnPlayer (after headsUp) = Some ''a'' \<and>
   processAction hvZero 7 ''a'' ''raise'' 19 (after headsUp) =
     Inr ((after headsUp)
          \<lparr>game := Some ((the (game (after headsUp)))\<lparr>turnEnd := Some 20007\<rparr>),
           turnTimer := Some ''a'',
           sent := sent (after headsUp) @
             [SendTo ''a'' (Error (RaiseAtLeast 20)), Broadcast (Turn ''a'' 20007)]\<rparr>)"
proof -
  let ?s = "after headsUp"
  have g: "game ?s = Some (the (game ?s))" by code_simp
  have o: "seatOrder (the (game ?s)) \<noteq> []" by code_simp
  have c: "pId (seatOrder (the (game ?s)) !
             (turnIndex (the (game ?s)) mod length (seatOrder (the (game ?s))))) = ''a''"
    by code_simp
  have l: "lookup ?s ''a'' = Some (the (lookup ?s ''a''))" by code_simp
  have m: "minRaise (the (game ?s)) = 20" by code_simp
  have a: "(19::int) < minRaise (the (game ?s))" unfolding m by simp
  have t: "turnPlayer ?s = Some ''a''" by code_simp
  show ?thesis using raise_floor [OF g o c l a, of hvZero 7] t by (simp add: m)
qed

subsection \<open>Taking a seat\<close>

text \<open>
  Claim C9 (taking a seat), as the code has it. A request of a player who holds a seat is
  answered by the error "Already seated" and one made while a Round exists by "Game in
  progress", each sent to the requesting player with nothing else changed. A request for an
  occupied seat, or for a seat outside 0..5, is dropped: the state is as before and no
  message is sent. Otherwise the seat is given to the player, who is marked active and
  not folded.
\<close>

theorem take_seat_cases:
  assumes "lookup s i = Some player"
  shows "(seat player \<noteq> None \<longrightarrow>
            onMessage hv e i (TakeSeat n) s =
              Inr (s\<lparr>sent := sent s @ [SendTo i (Error AlreadySeated)]\<rparr>)) \<and>
         (seat player = None \<and> game s \<noteq> None \<longrightarrow>
            onMessage hv e i (TakeSeat n) s =
              Inr (s\<lparr>sent := sent s @ [SendTo i (Error GameInProgress)]\<rparr>)) \<and>
         (seat player = None \<and> game s = None \<and>
            (n < 0 \<or> n > 5 \<or> length (seats s) \<le> nat n \<or> seats s ! nat n \<noteq> None) \<longrightarrow>
            onMessage hv e i (TakeSeat n) s = Inr s) \<and>
         (seat player = None \<and> game s = None \<and> 0 \<le> n \<and> n \<le> 5 \<and> nat n < length (seats s) \<and>
            seats s ! nat n = None \<longrightarrow>
            (\<exists>s'. onMessage hv e i (TakeSeat n) s = Inr s' \<and>
                  seats s' = (seats s)[nat n := Some i] \<and> game s' = None \<and>
                  lookup s' i =
                    Some (player\<lparr>seat := Some (nat n), active := True, folded := False\<rparr>) \<and>
                  (\<forall>k. k \<noteq> i \<longrightarrow> lookup s' k = lookup s k)))"
proof (intro conjI impI)
  assume "seat player \<noteq> None"
  then show "onMessage hv e i (TakeSeat n) s =
      Inr (s\<lparr>sent := sent s @ [SendTo i (Error AlreadySeated)]\<rparr>)"
    using assms by (simp add: onMessage_def takeSeat_def sendTo_present)
next
  assume "seat player = None \<and> game s \<noteq> None"
  then show "onMessage hv e i (TakeSeat n) s =
      Inr (s\<lparr>sent := sent s @ [SendTo i (Error GameInProgress)]\<rparr>)"
    using assms by (simp add: onMessage_def takeSeat_def sendTo_present)
next
  assume "seat player = None \<and> game s = None \<and>
      (n < 0 \<or> n > 5 \<or> length (seats s) \<le> nat n \<or> seats s ! nat n \<noteq> None)"
  then show "onMessage hv e i (TakeSeat n) s = Inr s"
    using assms by (auto simp: onMessage_def takeSeat_def)
next
  assume a: "seat player = None \<and> game s = None \<and> 0 \<le> n \<and> n \<le> 5 \<and>
      nat n < length (seats s) \<and> seats s ! nat n = None"
  let ?s2 = "updPlayer i (\<lambda>p. p\<lparr>seat := Some (nat n), active := True, folded := False\<rparr>)
               (setSeat (nat n) (Some i) s)"
  let ?s3 = "logToAll (LogTookSeat (name player) (n + 1)) ?s2"
  have g3: "game ?s3 = None"
    using a by (simp add: logToAll_def broadcast_def updPlayer_def setSeat_def)
  have r: "onMessage hv e i (TakeSeat n) s = Inr (?s3\<lparr>sent := sent ?s3 @ [Broadcast StateMsg]\<rparr>)"
    using assms a broadcastState_idle [OF g3]
    by (simp add: onMessage_def takeSeat_def Let_def)
  have l: "lookup (?s3\<lparr>sent := sent ?s3 @ [Broadcast StateMsg]\<rparr>) k = lookup ?s2 k" for k
    by (simp add: lookup_def logToAll_def broadcast_def)
  have "seats (?s3\<lparr>sent := sent ?s3 @ [Broadcast StateMsg]\<rparr>) = (seats s)[nat n := Some i]"
    by (simp add: logToAll_def broadcast_def updPlayer_def setSeat_def)
  moreover have "game (?s3\<lparr>sent := sent ?s3 @ [Broadcast StateMsg]\<rparr>) = None"
    using g3 by simp
  moreover have "lookup (?s3\<lparr>sent := sent ?s3 @ [Broadcast StateMsg]\<rparr>) i =
      Some (player\<lparr>seat := Some (nat n), active := True, folded := False\<rparr>)"
    using assms by (simp add: l lookup_updPlayer lookup_setSeat)
  moreover have "\<forall>k. k \<noteq> i \<longrightarrow>
      lookup (?s3\<lparr>sent := sent ?s3 @ [Broadcast StateMsg]\<rparr>) k = lookup s k"
    by (simp add: l lookup_updPlayer lookup_setSeat)
  ultimately show "\<exists>s'. onMessage hv e i (TakeSeat n) s = Inr s' \<and>
      seats s' = (seats s)[nat n := Some i] \<and> game s' = None \<and>
      lookup s' i = Some (player\<lparr>seat := Some (nat n), active := True, folded := False\<rparr>) \<and>
      (\<forall>k. k \<noteq> i \<longrightarrow> lookup s' k = lookup s k)"
    unfolding r by blast
qed

theorem take_seat_cases_witness:
  "onMessage hvZero (envAt []) ''a'' (TakeSeat 3) (after oneSeated) =
     Inr ((after oneSeated)\<lparr>sent := sent (after oneSeated) @ [SendTo ''a'' (Error AlreadySeated)]\<rparr>) \<and>
   onMessage hvZero (envAt []) ''b'' (TakeSeat 6) (after oneSeated) = Inr (after oneSeated) \<and>
   seats (after (oneSeated @ [(envAt [], Message ''b'' (TakeSeat 1))])) =
     [Some ''a'', Some ''b'', None, None, None, None]"
proof -
  let ?s = "after oneSeated"
  have la: "lookup ?s ''a'' = Some (the (lookup ?s ''a''))" by code_simp
  have lb: "lookup ?s ''b'' = Some (the (lookup ?s ''b''))" by code_simp
  have sa: "seat (the (lookup ?s ''a'')) \<noteq> None" by code_simp
  have sb: "seat (the (lookup ?s ''b'')) = None" by code_simp
  have g: "game ?s = None" by code_simp
  have 1: "onMessage hvZero (envAt []) ''a'' (TakeSeat 3) ?s =
      Inr (?s\<lparr>sent := sent ?s @ [SendTo ''a'' (Error AlreadySeated)]\<rparr>)"
    using take_seat_cases [OF la, where hv = hvZero and e = "envAt []" and n = 3] sa by blast
  have 2: "onMessage hvZero (envAt []) ''b'' (TakeSeat 6) ?s = Inr ?s"
    using take_seat_cases [OF lb, where hv = hvZero and e = "envAt []" and n = 6] sb g by simp
  have 3: "seats (after (oneSeated @ [(envAt [], Message ''b'' (TakeSeat 1))])) =
      [Some ''a'', Some ''b'', None, None, None, None]" by code_simp
  show ?thesis using 1 2 3 by blast
qed

text \<open>
  The claim as stated fails: with a seated at seat 0, the request of b for seat 0 leaves
  the state as it is, the trace of sent messages included, so no error reaches b.
\<close>

theorem take_seat_occupied_silent:
  "seats (after oneSeated) ! 0 = Some ''a'' \<and> seatOf (after oneSeated) ''b'' = None \<and>
   onMessage hvZero (envAt []) ''b'' (TakeSeat 0) (after oneSeated) = Inr (after oneSeated)"
  by code_simp

subsection \<open>A capped raise and the street bet\<close>

text \<open>
  Claim C3 (raise commitment cap) at a concrete raise. In the heads-up hand a holds 990
  chips with a street bet of 10 and 10 to call. A raise by 2000 moves the 990 chips of the
  stack into the pot, which grows from 30 to 1020, and sets \<open>minRaise\<close> to the increment
  980 left after the cap; but the street bet of a becomes the uncapped 2020, not
  10 + 990 = 1000, and \<open>currentBet\<close> with it.
\<close>

theorem raise_bet_not_capped:
  "stackAndBet (after headsUp) ''a'' = Some (990, 10) \<and>
   map_option pot (game (after headsUp)) = Some 30 \<and>
   map_option currentBet (game (after headsUp)) = Some 20 \<and>
   stackAndBet (after (headsUp @ [(envAt [], Message ''a'' (Action ''raise'' 2000))])) ''a'' =
     Some (0, 2020) \<and>
   map_option pot (game (after (headsUp @ [(envAt [], Message ''a'' (Action ''raise'' 2000))]))) =
     Some 1020 \<and>
   map_option currentBet
     (game (after (headsUp @ [(envAt [], Message ''a'' (Action ''raise'' 2000))]))) = Some 2020 \<and>
   map_option minRaise
     (game (after (headsUp @ [(envAt [], Message ''a'' (Action ''raise'' 2000))]))) = Some 980"
  by code_simp

subsection \<open>The first turn of a street\<close>

text \<open>
  Claim C4 (street transition) at a concrete hand. Seats 0, 1, 2 are taken by a, b, c and
  the button is at seat 1, so \<open>seatOrder\<close> is b, c, a. When the calls of a and b complete
  the preflop street, the flop opens with \<open>currentBet\<close> 0, \<open>minRaise\<close> 20, \<open>actionCount\<close>
  0 and all bets 0, but with \<open>turnIndex\<close> 2: the turn is on a at seat 0, neither the first
  seat of \<open>seatOrder\<close> (b, the small blind) nor the seat after the button (c at seat 2).
\<close>

theorem flop_turn_misplaced:
  "dealerIndex (after secondHandFlop) = 1 \<and>
   roundView (after secondHandFlop) = Some (Flop, 0, 20, 0, 2, [''b'', ''c'', ''a'']) \<and>
   streetBets (after secondHandFlop) = [0, 0, 0] \<and>
   turnPlayer (after secondHandFlop) = Some ''a'' \<and>
   seatOf (after secondHandFlop) ''a'' = Some 0 \<and>
   seatOf (after secondHandFlop) ''b'' = Some 1 \<and>
   seatOf (after secondHandFlop) ''c'' = Some 2"
  by code_simp



subsection \<open>Showdown\<close>

lemma fold_updPlayer_frame:
  "game (fold (\<lambda>(i, p). updPlayer i f) ws s) = game s \<and>
   seats (fold (\<lambda>(i, p). updPlayer i f) ws s) = seats s \<and>
   dealerIndex (fold (\<lambda>(i, p). updPlayer i f) ws s) = dealerIndex s \<and>
   turnTimer (fold (\<lambda>(i, p). updPlayer i f) ws s) = turnTimer s \<and>
   map fst (players (fold (\<lambda>(i, p). updPlayer i f) ws s)) = map fst (players s)"
proof (induction ws arbitrary: s)
  case Nil
  then show ?case by simp
next
  case (Cons w ws)
  obtain i p where w: "w = (i, p)" by (cases w)
  show ?case using Cons [of "updPlayer i f s"] by (simp add: w updPlayer_frame)
qed

lemma lookup_fold_updPlayer:
  "distinct (map fst ws) \<Longrightarrow>
   lookup (fold (\<lambda>(i, p). updPlayer i f) ws s) k =
     (if k \<in> fst ` set ws then map_option f (lookup s k) else lookup s k)"
proof (induction ws arbitrary: s)
  case Nil
  then show ?case by simp
next
  case (Cons w ws)
  obtain i p where w: "w = (i, p)" by (cases w)
  have d: "distinct (map fst ws)" and n: "i \<notin> fst ` set ws" using Cons.prems w by auto
  show ?case using Cons.IH [OF d, of "updPlayer i f s"] n
    by (auto simp: w lookup_updPlayer)
qed

lemma stackSum_fold_award:
  "distinct (map fst (players s)) \<Longrightarrow> \<forall>w \<in> set ws. lookup s (fst w) \<noteq> None \<Longrightarrow>
   stackSum (players (fold (\<lambda>(i, p). updPlayer i (\<lambda>p. p\<lparr>chips := chips p + d\<rparr>)) ws s)) =
     stackSum (players s) + d * int (length ws)"
proof (induction ws arbitrary: s)
  case Nil
  then show ?case by simp
next
  case (Cons w ws)
  obtain i p where w: "w = (i, p)" by (cases w)
  let ?s1 = "updPlayer i (\<lambda>p. p\<lparr>chips := chips p + d\<rparr>) s"
  obtain q where q: "lookup s i = Some q" using Cons.prems(2) w by auto
  have k: "distinct (map fst (players ?s1))" using Cons.prems(1) by (simp add: updPlayer_frame)
  have l: "\<forall>w \<in> set ws. lookup ?s1 (fst w) \<noteq> None"
    using Cons.prems(2) by (auto simp: lookup_updPlayer)
  have "stackSum (players ?s1) = stackSum (players s) + d"
    using stackSum_updPlayer [OF Cons.prems(1) q] by simp
  then show ?case using Cons.IH [OF k l] by (simp add: w algebra_simps)
qed

lemma map_fst_map_filter:
  "map fst (List.map_filter (\<lambda>r. map_option (Pair (pId r)) (lookup s (pId r))) rs) =
     filter (\<lambda>i. lookup s i \<noteq> None) (map pId rs)"
  by (induction rs) (auto simp: List.map_filter_def)

lemma distinct_activePlayers:
  assumes "distinct (map pId (seatOrder g))"
  shows "distinct (map fst (activePlayers s g))"
proof -
  have "distinct (map fst (List.map_filter
      (\<lambda>r. map_option (Pair (pId r)) (lookup s (pId r))) (seatOrder g)))"
    unfolding map_fst_map_filter using assms by simp
  then show ?thesis unfolding activePlayers_def by (rule distinct_map_filter)
qed

lemma winnerPlayers_filter:
  "winnerPlayers hv s g =
     filter (\<lambda>jq. hv (cards (snd jq) @ community g) =
                Max ((\<lambda>jq. hv (cards (snd jq) @ community g)) ` set (activePlayers s g)))
       (activePlayers s g)"
proof -
  have "(\<lambda>x. case case x of (i, p) \<Rightarrow> (i, p, hv (cards p @ community g)) of (i, p, v) \<Rightarrow> v) =
      (\<lambda>jq. hv (cards (snd jq) @ community g))"
    by (auto simp: case_prod_unfold)
  then show ?thesis
    unfolding winnerPlayers_def Let_def by (simp add: filter_map o_def case_prod_unfold)
qed

lemma winnerIds_filter:
  "winnerIds hv s g =
     map fst (filter (\<lambda>jq. hv (cards (snd jq) @ community g) =
                Max ((\<lambda>jq. hv (cards (snd jq) @ community g)) ` set (activePlayers s g)))
       (activePlayers s g))"
  by (simp add: winnerIds_def winnerPlayers_filter)

lemma winnerIds_set:
  assumes "activePlayers s g \<noteq> []"
  shows "winnerIds hv s g \<noteq> [] \<and>
         set (winnerIds hv s g) =
           {i. \<exists>p. (i, p) \<in> set (activePlayers s g) \<and>
                (\<forall>jq \<in> set (activePlayers s g).
                   hv (cards (snd jq) @ community g) \<le> hv (cards p @ community g))}"
proof -
  define aps where "aps = activePlayers s g"
  define val where "val = (\<lambda>jq :: pid \<times> player. hv (cards (snd jq) @ community g))"
  define top where "top = Max (val ` set aps)"
  have fin: "finite (val ` set aps)" and ne: "val ` set aps \<noteq> {}"
    using assms by (auto simp: aps_def)
  have "top \<in> val ` set aps" unfolding top_def using Max_in [OF fin ne] .
  then obtain jq where jq: "jq \<in> set aps" "val jq = top" by auto
  have ge: "val x \<le> top" if "x \<in> set aps" for x
    unfolding top_def using Max_ge [OF fin] that by blast
  have w: "winnerIds hv s g = map fst (filter (\<lambda>x. val x = top) aps)"
    unfolding winnerIds_filter aps_def val_def top_def ..
  have "fst jq \<in> set (winnerIds hv s g)" unfolding w using jq by force
  then have 1: "winnerIds hv s g \<noteq> []" by auto
  have 2: "set (winnerIds hv s g) =
      {i. \<exists>p. (i, p) \<in> set aps \<and> (\<forall>x \<in> set aps. val x \<le> val (i, p))}"
  proof (intro set_eqI iffI)
    fix i assume "i \<in> set (winnerIds hv s g)"
    then obtain x where x: "x \<in> set aps" "val x = top" "i = fst x" unfolding w by auto
    have "val x = val (i, snd x)" by (simp add: val_def)
    then have "(i, snd x) \<in> set aps \<and> (\<forall>y \<in> set aps. val y \<le> val (i, snd x))"
      using x ge by simp
    then show "i \<in> {i. \<exists>p. (i, p) \<in> set aps \<and> (\<forall>x \<in> set aps. val x \<le> val (i, p))}" by blast
  next
    fix i assume "i \<in> {i. \<exists>p. (i, p) \<in> set aps \<and> (\<forall>x \<in> set aps. val x \<le> val (i, p))}"
    then obtain p where p: "(i, p) \<in> set aps" "\<forall>x \<in> set aps. val x \<le> val (i, p)" by blast
    have "top \<le> val (i, p)" using p(2) jq by auto
    then have "val (i, p) = top" using ge [OF p(1)] by simp
    then show "i \<in> set (winnerIds hv s g)" unfolding w using p(1) by force
  qed
  show ?thesis using 1 2 unfolding aps_def val_def by simp
qed

lemma fold_updPlayer_players:
  "players (fold (\<lambda>(i, p). updPlayer i f) ws s) =
     fold (\<lambda>(i, p). map (\<lambda>(k, q). if k = i then (k, f q) else (k, q))) ws (players s)"
proof (induction ws arbitrary: s)
  case Nil
  then show ?case by simp
next
  case (Cons w ws)
  obtain i p where w: "w = (i, p)" by (cases w)
  show ?case using Cons [of "updPlayer i f s"] by (simp add: w updPlayer_def)
qed

lemma winnerPlayers_cong:
  "players s' = players s \<Longrightarrow> winnerPlayers hv s' g = winnerPlayers hv s g"
  by (simp add: winnerPlayers_def activePlayers_cong [of s' s g g])

lemma finishShowdown_result:
  assumes "game s = Some g" and "activePlayers s g \<noteq> []"
  shows "\<exists>s'. finishShowdown hv s = Inr s' \<and> game s' = None \<and> turnTimer s' = None \<and>
           seats s' = seats s \<and>
           players s' =
             players (fold (\<lambda>(i, p). updPlayer i
                        (\<lambda>p. p\<lparr>chips := chips p + pot g div int (length (winnerIds hv s g))\<rparr>))
                      (winnerPlayers hv s g) s)"
proof -
  let ?s1 = "broadcast (Reveal (map (\<lambda>(i, p). (i, cards p)) (activePlayers s g)) (community g)) s"
  have w: "winnerPlayers hv ?s1 g = winnerPlayers hv s g"
    by (rule winnerPlayers_cong) (simp add: frame)
  show ?thesis
    using assms
    by (simp add: finishShowdown_def Let_def w winnerIds_def broadcastState_def
        bindE_def frame fold_updPlayer_players fold_updPlayer_frame)
qed

lemma div_times_length: "(x::int) div n * n = x - x mod n"
  by (simp add: algebra_simps minus_mod_eq_mult_div)

text \<open>
  Claim C7 (showdown split). At a showdown with at least one contesting player, the winners
  are the contesting players whose hand value is greatest among the contesting players,
  ties included; each winner's stack grows by the pot divided by the number of winners,
  rounded down, the other stacks are as before, and the Round is discarded with its pot, so
  that the chips in play drop by the remainder of that division.
\<close>

theorem showdown_split:
  assumes "game s = Some g" and "activePlayers s g \<noteq> []"
    and "distinct (map fst (players s))" and "distinct (map pId (seatOrder g))"
  shows "\<exists>s'. finishShowdown hv s = Inr s' \<and> game s' = None \<and> winnerIds hv s g \<noteq> [] \<and>
           set (winnerIds hv s g) =
             {i. \<exists>p. (i, p) \<in> set (activePlayers s g) \<and>
                  (\<forall>jq \<in> set (activePlayers s g).
                     hv (cards (snd jq) @ community g) \<le> hv (cards p @ community g))} \<and>
           (\<forall>i p. lookup s i = Some p \<longrightarrow>
              lookup s' i =
                Some (if i \<in> set (winnerIds hv s g)
                      then p\<lparr>chips := chips p + pot g div int (length (winnerIds hv s g))\<rparr>
                      else p)) \<and>
           totalChips s' = totalChips s - pot g mod int (length (winnerIds hv s g))"
proof -
  define W where "W = winnerPlayers hv s g"
  define share where "share = pot g div int (length (winnerIds hv s g))"
  obtain s' where s': "finishShowdown hv s = Inr s'" "game s' = None"
    "players s' =
       players (fold (\<lambda>(i, p). updPlayer i (\<lambda>p. p\<lparr>chips := chips p + share\<rparr>)) W s)"
    using finishShowdown_result [OF assms(1,2), of hv] unfolding W_def share_def by blast
  have sub: "set W \<subseteq> set (activePlayers s g)"
    unfolding W_def winnerPlayers_filter by auto
  have dW: "distinct (map fst W)"
    unfolding W_def winnerPlayers_filter
    by (rule distinct_map_filter [OF distinct_activePlayers [OF assms(4)]])
  have ids: "fst ` set W = set (winnerIds hv s g)" by (simp add: winnerIds_def W_def)
  have len: "length W = length (winnerIds hv s g)" by (simp add: winnerIds_def W_def)
  have look: "lookup s' i =
      (if i \<in> set (winnerIds hv s g)
       then map_option (\<lambda>p. p\<lparr>chips := chips p + share\<rparr>) (lookup s i) else lookup s i)" for i
    using lookup_fold_updPlayer [OF dW, of "\<lambda>p. p\<lparr>chips := chips p + share\<rparr>" s i]
    unfolding ids by (simp add: lookup_def s'(3))
  have pres: "\<forall>w \<in> set W. lookup s (fst w) \<noteq> None"
    using sub activePlayers_lookup [of _ _ s g] by fastforce
  have "stackSum (players s') = stackSum (players s) + share * int (length W)"
    unfolding s'(3) by (rule stackSum_fold_award [OF assms(3) pres])
  also have "\<dots> = stackSum (players s) + (pot g - pot g mod int (length (winnerIds hv s g)))"
    unfolding share_def len by (simp add: div_times_length)
  finally have tot: "totalChips s' = totalChips s - pot g mod int (length (winnerIds hv s g))"
    using assms(1) s'(2) by (simp add: totalChips_def potOf_def)
  have "\<forall>i p. lookup s i = Some p \<longrightarrow>
      lookup s' i = Some (if i \<in> set (winnerIds hv s g) then p\<lparr>chips := chips p + share\<rparr> else p)"
    using look by simp
  then show ?thesis
    using s'(1,2) tot winnerIds_set [OF assms(2), of hv] unfolding share_def by blast
qed

theorem showdown_split_witness:
  "totalChips showdownTable = 2000 \<and>
   winnerIds hvZero showdownTable (the (game showdownTable)) = [''a'', ''b''] \<and>
   map_sum id stacks (finishShowdown hvZero showdownTable) = Inr [(''a'', 1000), (''b'', 999)] \<and>
   map_sum id totalChips (finishShowdown hvZero showdownTable) = Inr 1999"
proof -
  let ?s = showdownTable
  let ?g = "the (game showdownTable)"
  have g: "game ?s = Some ?g" by code_simp
  have n: "activePlayers ?s ?g \<noteq> []" by code_simp
  have d: "distinct (map fst (players ?s))" by code_simp
  have o: "distinct (map pId (seatOrder ?g))" by code_simp
  have t: "totalChips ?s = 2000" by code_simp
  have w: "winnerIds hvZero ?s ?g = [''a'', ''b'']" by code_simp
  have p: "pot ?g = 101" by code_simp
  have st: "map_sum id stacks (finishShowdown hvZero ?s) = Inr [(''a'', 1000), (''b'', 999)]"
    by code_simp
  obtain s' where s': "finishShowdown hvZero ?s = Inr s'"
    "totalChips s' = totalChips ?s - pot ?g mod int (length (winnerIds hvZero ?s ?g))"
    using showdown_split [OF g n d o, of hvZero] by blast
  have "totalChips s' = 1999" unfolding s'(2) t w p by simp
  then have "map_sum id totalChips (finishShowdown hvZero ?s) = Inr 1999" by (simp add: s'(1))
  then show ?thesis using t w st by blast
qed



subsection \<open>Steps that keep the chips\<close>

lemma keeps_refl: "keeps s s"
  by (auto simp: keeps_def sameRound_def split: option.splits)

lemma sameRound_trans: "sameRound s s' \<Longrightarrow> sameRound s' s'' \<Longrightarrow> sameRound s s''"
  by (auto simp: sameRound_def split: option.splits)

lemma keeps_trans: "keeps s s' \<Longrightarrow> keeps s' s'' \<Longrightarrow> keeps s s''"
  unfolding keeps_def keysOK_def using sameRound_trans by (auto split: if_splits)

lemma keeps_loses: "keeps s s' \<Longrightarrow> loses s s'"
  by (auto simp: keeps_def loses_def)

lemma sameRound_None: "sameRound s s' \<Longrightarrow> game s = None \<Longrightarrow> game s' = None"
  by (auto simp: sameRound_def split: option.splits)

lemma loses_trans: "loses s s' \<Longrightarrow> loses s' s'' \<Longrightarrow> loses s s''"
proof -
  assume a: "loses s s'" and b: "loses s' s''"
  have k: "map fst (players s'') = map fst (players s)" using a b by (simp add: loses_def)
  have r: "sameRound s s''" using a b sameRound_trans by (auto simp: loses_def)
  have "sameRound s' s''" using b by (simp add: loses_def)
  then have n: "game s'' \<noteq> None \<Longrightarrow> game s' \<noteq> None"
    by (auto simp: sameRound_def split: option.splits)
  show ?thesis
  proof (cases "keysOK s")
    case False
    then show ?thesis using k r by (simp add: loses_def)
  next
    case True
    then have k': "keysOK s'" using a by (simp add: loses_def keysOK_def)
    have 1: "totalChips s' \<le> totalChips s" "game s' \<noteq> None \<Longrightarrow> totalChips s' = totalChips s"
      using a True by (auto simp: loses_def split: if_splits)
    have 2: "totalChips s'' \<le> totalChips s'" "game s'' \<noteq> None \<Longrightarrow> totalChips s'' = totalChips s'"
      using b k' by (auto simp: loses_def split: if_splits)
    show ?thesis using k r True 1 2 n by (auto simp: loses_def)
  qed
qed

text \<open>A change that leaves the stacks, the pot and the identity of the Round alone.\<close>

lemma keepsI:
  assumes "players s' = players s"
    and "rel_option (\<lambda>g g'. pot g' = pot g \<and> turnPlayerId g' = turnPlayerId g \<and>
           seatOrder g' = seatOrder g) (game s) (game s')"
  shows "keeps s s'"
  using assms
  by (cases "game s"; cases "game s'")
     (auto simp: keeps_def sameRound_def totalChips_def potOf_def)

lemma keeps_broadcast: "keeps s (broadcast m s)"
  by (rule keepsI) (simp_all add: frame option.rel_refl)

lemma keeps_sendTo: "keeps s (sendTo i m s)"
  by (rule keepsI) (simp_all add: frame option.rel_refl)

lemma keeps_logToAll: "keeps s (logToAll l s)"
  by (rule keepsI) (simp_all add: frame option.rel_refl)

lemma keeps_clearTurnTimer: "keeps s (clearTurnTimer s)"
  by (rule keepsI) (simp_all add: frame option.rel_map option.rel_refl)

lemma keeps_broadcastState: "broadcastState s = Inr s' \<Longrightarrow> keeps s s'"
  using keeps_broadcast [of s StateMsg]
  by (auto simp: broadcastState_def split: option.splits if_splits)

lemma keeps_startTurnTimer: "startTurnTimer t s = Inr s' \<Longrightarrow> keeps s s'"
proof (cases "game s")
  case None
  assume "startTurnTimer t s = Inr s'"
  then show ?thesis using None keeps_refl by (simp add: startTurnTimer_def)
next
  case (Some g)
  assume a: "startTurnTimer t s = Inr s'"
  show ?thesis
  proof (rule keepsI)
    show "players s' = players s"
      using a Some by (auto simp: startTurnTimer_def Let_def frame split: if_splits)
    show "rel_option (\<lambda>g g'. pot g' = pot g \<and> turnPlayerId g' = turnPlayerId g \<and>
           seatOrder g' = seatOrder g) (game s) (game s')"
      using a Some by (auto simp: startTurnTimer_def Let_def frame split: if_splits)
  qed
qed

lemma keeps_awardPotAndEnd:
  assumes "awardPotAndEnd s = Inr s'"
  shows "keeps s s'"
proof (cases "game s")
  case None
  then show ?thesis using assms keeps_refl by (simp add: awardPotAndEnd_def)
next
  case (Some g)
  show ?thesis
  proof (cases "activePlayers s g")
    case Nil
    then show ?thesis using assms Some keeps_refl by (simp add: awardPotAndEnd_def)
  next
    case (Cons wp rest)
    obtain w winner where wp: "wp = (w, winner)" by (cases wp)
    have l: "lookup s w = Some winner"
      using activePlayers_lookup [of w winner s g] Cons wp by simp
    let ?s1 = "updPlayer w (\<lambda>p. p\<lparr>chips := chips p + pot g\<rparr>) s"
    have r: "game s' = None \<and> players s' = players ?s1"
      using assms Some Cons wp
      by (auto simp: awardPotAndEnd_def Let_def broadcastState_def bindE_def frame)
    have "stackSum (players ?s1) = stackSum (players s) + pot g" if "keysOK s"
      using stackSum_updPlayer [OF _ l, of "\<lambda>p. p\<lparr>chips := chips p + pot g\<rparr>"] that
      by (simp add: keysOK_def)
    then show ?thesis
      using r Some by (simp add: keeps_def sameRound_def totalChips_def potOf_def frame)
  qed
qed

lemma bindE_Inr: "bindE m f = Inr y \<longleftrightarrow> (\<exists>x. m = Inr x \<and> f x = Inr y)"
  by (cases m) (simp_all add: bindE_def)

lemma stacks_keys: "map fst (stacks s) = map fst (players s)"
  by (simp add: stacks_def o_def case_prod_unfold)

lemma stacks_sum: "sum_list (map snd (stacks s)) = stackSum (players s)"
  by (simp add: stacks_def stackSum_def o_def case_prod_unfold)

lemma stacks_updPlayer:
  "(\<And>p. chips (f p) = chips p) \<Longrightarrow> stacks (updPlayer i f s) = stacks s"
  by (simp add: stacks_def updPlayer_def case_prod_unfold)

lemma stacks_fold_updPlayer:
  "(\<And>p. chips (f p) = chips p) \<Longrightarrow> stacks (fold (\<lambda>(i, p). updPlayer i f) ws s) = stacks s"
proof (induction ws arbitrary: s)
  case Nil
  then show ?case by simp
next
  case (Cons w ws)
  obtain i p where w: "w = (i, p)" by (cases w)
  show ?case using Cons.IH [of "updPlayer i f s"] Cons.prems
    by (simp add: w stacks_updPlayer)
qed

lemma stacks_cong: "players s' = players s \<Longrightarrow> stacks s' = stacks s"
  by (simp add: stacks_def)

lemma keeps_stacksI:
  assumes "stacks s' = stacks s"
    and "rel_option (\<lambda>g g'. pot g' = pot g \<and> turnPlayerId g' = turnPlayerId g \<and>
           seatOrder g' = seatOrder g) (game s) (game s')"
  shows "keeps s s'"
proof -
  have "map fst (players s') = map fst (players s)"
    using assms(1) stacks_keys by metis
  moreover have "stackSum (players s') = stackSum (players s)"
    using assms(1) stacks_sum by metis
  ultimately show ?thesis
    using assms(2)
    by (cases "game s"; cases "game s'")
       (auto simp: keeps_def sameRound_def totalChips_def potOf_def)
qed

lemma loses_finishShowdown:
  assumes "finishShowdown hv s = Inr s'"
  shows "loses s s'"
proof (cases "game s")
  case None
  then show ?thesis using assms keeps_refl keeps_loses by (simp add: finishShowdown_def)
next
  case (Some g)
  show ?thesis
  proof (cases "activePlayers s g = []")
    case True
    then show ?thesis using assms Some keeps_refl keeps_loses by (simp add: finishShowdown_def)
  next
    case False
    define n where "n = length (winnerIds hv s g)"
    define share where "share = pot g div int n"
    let ?W = "winnerPlayers hv s g"
    let ?s2 = "fold (\<lambda>(i, p). updPlayer i (\<lambda>p. p\<lparr>chips := chips p + share\<rparr>)) ?W s"
    have r: "game s' = None" "players s' = players ?s2"
      using finishShowdown_result [OF Some False, of hv] assms unfolding share_def n_def by auto
    have keys: "map fst (players s') = map fst (players s)"
      unfolding r(2) using fold_updPlayer_frame by blast
    have n0: "0 < n" using winnerIds_set [OF False, of hv] by (simp add: n_def)
    have len: "length ?W = n" by (simp add: n_def winnerIds_def)
    have pres: "\<forall>w \<in> set ?W. lookup s (fst w) \<noteq> None"
      unfolding winnerPlayers_filter using activePlayers_lookup [of _ _ s g] by fastforce
    have "totalChips s' \<le> totalChips s" if k: "keysOK s"
    proof -
      have "stackSum (players s') = stackSum (players s) + share * int n"
        unfolding r(2) using stackSum_fold_award [OF _ pres, of share] k len
        by (simp add: keysOK_def)
      also have "\<dots> = stackSum (players s) + (pot g - pot g mod int n)"
        unfolding share_def by (simp add: div_times_length)
      also have "\<dots> \<le> stackSum (players s) + pot g" using n0 by simp
      finally show ?thesis using Some r(1) by (simp add: totalChips_def potOf_def)
    qed
    then show ?thesis using keys r(1) by (simp add: loses_def sameRound_def)
  qed
qed

lemma dealCommunity_same:
  "pot (dealCommunity st g) = pot g \<and> turnPlayerId (dealCommunity st g) = turnPlayerId g \<and>
   seatOrder (dealCommunity st g) = seatOrder g"
  by (simp add: dealCommunity_def Let_def split: stage.splits prod.splits)

lemma keeps_startBettingRound:
  assumes "startBettingRound t st s = Inr s'"
  shows "keeps s s'"
proof (cases "game s")
  case None
  then show ?thesis using assms keeps_refl by (simp add: startBettingRound_def)
next
  case (Some g0)
  define g1 where "g1 = g0\<lparr>stage := st, currentBet := 0, minRaise := bigBlind g0, actionCount := 0,
                       turnIndex := (gameDealerIndex g0 + 1) mod length (seatOrder g0)\<rparr>"
  define s1 where "s1 = s\<lparr>game := Some g1\<rparr>"
  define s2 where "s2 = fold (\<lambda>(i, p). updPlayer i (\<lambda>p. p\<lparr>bet := 0\<rparr>)) (activePlayers s1 g1) s1"
  define s3 where "s3 = updGame (dealCommunity st) s2"
  have eq: "startBettingRound t st s =
      (if numActive s3 g1 \<le> 1 then awardPotAndEnd s3
       else bindE (broadcastState s3) (startTurnTimer t))"
    unfolding startBettingRound_def Some s3_def s2_def s1_def g1_def by (simp add: Let_def)
  have "game s2 = game s1" unfolding s2_def using fold_updPlayer_frame by blast
  then have g3: "game s3 = Some (dealCommunity st g1)"
    unfolding s3_def by (simp add: frame s1_def)
  have st3: "stacks s3 = stacks s"
  proof -
    have "stacks s3 = stacks s2" unfolding s3_def by (rule stacks_cong) (simp add: frame)
    also have "\<dots> = stacks s1" unfolding s2_def by (rule stacks_fold_updPlayer) simp
    also have "\<dots> = stacks s" unfolding s1_def by (rule stacks_cong) simp
    finally show ?thesis .
  qed
  have k3: "keeps s s3"
    by (rule keeps_stacksI [OF st3]) (simp add: Some g3 dealCommunity_same g1_def)
  show ?thesis
  proof (cases "numActive s3 g1 \<le> 1")
    case True
    then have "awardPotAndEnd s3 = Inr s'" using assms eq by simp
    then show ?thesis using k3 keeps_awardPotAndEnd keeps_trans by blast
  next
    case False
    then obtain s4 where "broadcastState s3 = Inr s4" "startTurnTimer t s4 = Inr s'"
      using assms eq by (auto simp: bindE_Inr)
    then show ?thesis
      using k3 keeps_broadcastState keeps_startTurnTimer keeps_trans by blast
  qed
qed

lemma loses_advanceTurnAfterAction:
  assumes "advanceTurnAfterAction hv t kind s = Inr s'"
  shows "loses s s'"
proof (cases "game s")
  case None
  then show ?thesis using assms keeps_refl keeps_loses by (simp add: advanceTurnAfterAction_def)
next
  case (Some g0)
  note g = Some
  define g1 where "g1 = (if kind \<noteq> ''fold'' then g0\<lparr>actionCount := actionCount g0 + 1\<rparr> else g0)"
  define s1 where "s1 = s\<lparr>game := Some g1\<rparr>"
  have k1: "keeps s s1"
    by (rule keepsI) (simp_all add: s1_def g g1_def)
  show ?thesis
  proof (cases "nextActiveIndex s1 g1 (turnIndex g1)")
    case None
    have "advanceTurnAfterAction hv t kind s = awardPotAndEnd s1"
      apply (simp only: advanceTurnAfterAction_def g option.case Let_def)
      apply (simp only: g1_def [symmetric] s1_def [symmetric])
      apply (simp only: None option.case)
      done
    then have "awardPotAndEnd s1 = Inr s'" using assms by simp
    then show ?thesis using k1 keeps_awardPotAndEnd keeps_trans keeps_loses by blast
  next
    case (Some nextIdx)
    note nx = Some
    define g2 where "g2 = g1\<lparr>turnIndex := nextIdx\<rparr>"
    define s2 where "s2 = s1\<lparr>game := Some g2\<rparr>"
    define s3 where "s3 = updGame (\<lambda>g. g\<lparr>actionCount := 0\<rparr>) s2"
    define roundComplete where
      "roundComplete = (if currentBet g2 = 0 then actionCount g2 \<ge> int (length (activePlayers s2 g2))
                        else everyoneMatchedCurrentBet s2 g2)"
    have eq: "advanceTurnAfterAction hv t kind s =
        (if length (activePlayers s2 g2) \<le> 1 then awardPotAndEnd s2
         else if roundComplete then
           (case stage g2 of
              Preflop \<Rightarrow> startBettingRound t Flop s3
            | Flop \<Rightarrow> startBettingRound t TurnStage s3
            | TurnStage \<Rightarrow> startBettingRound t River s3
            | River \<Rightarrow> finishShowdown hv s3)
         else bindE (broadcastState s2) (startTurnTimer t))"
      apply (simp only: advanceTurnAfterAction_def g option.case Let_def)
      apply (simp only: g1_def [symmetric] s1_def [symmetric])
      apply (simp only: nx option.case)
      apply (simp only: g2_def [symmetric] s2_def [symmetric] s3_def [symmetric]
          roundComplete_def [symmetric])
      done
    have k2: "keeps s s2"
      by (rule keepsI) (simp_all add: s2_def s1_def g g2_def g1_def)
    have k3: "keeps s s3"
      by (rule keepsI) (simp_all add: s3_def frame s2_def s1_def g g2_def g1_def)
    show ?thesis
    proof (cases "length (activePlayers s2 g2) \<le> 1")
      case True
      then have "awardPotAndEnd s2 = Inr s'" using assms eq by simp
      then show ?thesis using k2 keeps_awardPotAndEnd keeps_trans keeps_loses by blast
    next
      case False
      show ?thesis
      proof (cases roundComplete)
        case True
        have "startBettingRound t Flop s3 = Inr s' \<or> startBettingRound t TurnStage s3 = Inr s' \<or>
            startBettingRound t River s3 = Inr s' \<or> finishShowdown hv s3 = Inr s'"
          using assms eq False True by (cases "stage g2") simp_all
        then have "loses s3 s'"
          using keeps_startBettingRound keeps_loses loses_finishShowdown by blast
        then show ?thesis using k3 keeps_loses loses_trans by blast
      next
        case rc: False
        then obtain s4 where "broadcastState s2 = Inr s4" "startTurnTimer t s4 = Inr s'"
          using assms eq False by (auto simp: bindE_Inr)
        then show ?thesis
          using k2 keeps_broadcastState keeps_startTurnTimer keeps_trans keeps_loses by blast
      qed
    qed
  qed
qed

text \<open>Chips that leave a stack and reach the pot.\<close>

lemma keeps_pay:
  assumes "lookup s i = Some p" and "game s = Some g"
    and "players s' = players (updPlayer i f s)" and "chips (f p) = chips p - paid"
    and "game s' = Some g'" and "pot g' = pot g + paid"
    and "turnPlayerId g' = turnPlayerId g" and "seatOrder g' = seatOrder g"
  shows "keeps s s'"
proof -
  have k: "map fst (players s') = map fst (players s)"
    unfolding assms(3) by (simp add: updPlayer_frame)
  have "stackSum (players s') = stackSum (players s) - paid" if "keysOK s"
    unfolding assms(3) using stackSum_updPlayer [OF _ assms(1), of f] that assms(4)
    by (simp add: keysOK_def)
  then show ?thesis
    using k assms(2,5,6,7,8) by (simp add: keeps_def sameRound_def totalChips_def potOf_def)
qed

lemma loses_processAction:
  assumes "processAction hv t i a n s = Inr s'"
  shows "loses s s'"
proof (cases "game s")
  case None
  then have "s' = sendTo i (Error NoGameInProgress) s"
    using assms by (simp add: processAction_def)
  then show ?thesis using keeps_sendTo keeps_loses by simp
next
  case (Some g)
  note g = Some
  have so: "(seatOrder g = []) = False"
    using assms g by (auto simp: processAction_def)
  show ?thesis
  proof (cases "pId (seatOrder g ! (turnIndex g mod length (seatOrder g))) \<noteq> i")
    case True
    then have "s' = sendTo i (Error NotYourTurn) s"
      using assms g so by (simp add: processAction_def Let_def)
    then show ?thesis using keeps_sendTo keeps_loses by simp
  next
    case False
    then have cp: "(pId (seatOrder g ! (turnIndex g mod length (seatOrder g))) \<noteq> i) = False"
      by simp
    define s1 where "s1 = clearTurnTimer s"
    have k1: "keeps s s1" unfolding s1_def by (rule keeps_clearTurnTimer)
    have g1: "game s1 = Some (g\<lparr>turnEnd := None\<rparr>)" by (simp add: s1_def frame g)
    have "lookup s1 i \<noteq> None"
      using assms g so cp unfolding s1_def
      by (auto simp: processAction_def Let_def split: option.splits)
    then obtain p where lp: "lookup s1 i = Some p" by blast
    define toCall where "toCall = callAmount g p"
    define s3f where "s3f = logToAll (LogFolds (name p)) (updPlayer i (\<lambda>p. p\<lparr>folded := True\<rparr>) s1)"
    define sCheck where "sCheck = logToAll (LogChecks (name p)) s1"
    define paidC where "paidC = min toCall (chips p)"
    define s5c where
      "s5c = broadcast (Collect i paidC) (logToAll (LogCalls (name p) paidC)
               (updGame (\<lambda>g. g\<lparr>pot := pot g + paidC\<rparr>)
                 (updPlayer i (\<lambda>p. p\<lparr>chips := chips p - paidC, bet := bet p + paidC\<rparr>) s1)))"
    define sErr where "sErr = sendTo i (Error (RaiseAtLeast (minRaise g))) s1"
    define totalBet where "totalBet = bet p + toCall + n"
    define paidR where "paidR = (if toCall + n > chips p then chips p else toCall + n)"
    define amount' where "amount' = (if toCall + n > chips p then paidR - toCall else n)"
    define s5r where
      "s5r = logToAll (LogRaisesTo (name p) totalBet) (broadcast (Collect i paidR)
               (updGame (\<lambda>g. g\<lparr>pot := pot g + paidR, currentBet := totalBet, minRaise := amount'\<rparr>)
                 (updPlayer i (\<lambda>p. p\<lparr>chips := chips p - paidR, bet := totalBet\<rparr>) s1)))"
    define sUnk where "sUnk = sendTo i (Error UnknownAction) s1"
    have eq: "processAction hv t i a n s =
        (if a = ''fold'' then
           (if numActive s3f g \<le> 1 then awardPotAndEnd s3f
            else advanceTurnAfterAction hv t a s3f)
         else if a = ''call'' \<or> a = ''check'' then
           (if toCall = 0 then advanceTurnAfterAction hv t a sCheck
            else advanceTurnAfterAction hv t a s5c)
         else if a = ''raise'' then
           (if n < minRaise g then startTurnTimer t sErr
            else advanceTurnAfterAction hv t ''raise'' s5r)
         else startTurnTimer t sUnk)"
      apply (simp only: processAction_def g option.case so cp if_False Let_def)
      apply (simp only: s1_def [symmetric])
      apply (simp only: lp option.case)
      apply (simp only: toCall_def [symmetric])
      apply (simp only: paidC_def [symmetric] paidR_def [symmetric] totalBet_def [symmetric])
      apply (simp only: amount'_def [symmetric])
      apply (simp only: s3f_def [symmetric] sCheck_def [symmetric] s5c_def [symmetric]
          sErr_def [symmetric] s5r_def [symmetric] sUnk_def [symmetric])
      done
    have kf: "keeps s1 s3f"
      by (rule keeps_stacksI)
         (simp_all add: s3f_def frame stacks_def updPlayer_def case_prod_unfold option.rel_refl)
    have kc: "keeps s1 sCheck" unfolding sCheck_def by (rule keeps_logToAll)
    have k5c: "keeps s1 s5c"
      by (rule keeps_pay [OF lp g1, where paid = paidC
            and f = "\<lambda>p. p\<lparr>chips := chips p - paidC, bet := bet p + paidC\<rparr>"
            and g' = "g\<lparr>turnEnd := None, pot := pot g + paidC\<rparr>"])
         (simp_all add: s5c_def frame g1)
    have ke: "keeps s1 sErr" unfolding sErr_def by (rule keeps_sendTo)
    have k5r: "keeps s1 s5r"
      by (rule keeps_pay [OF lp g1, where paid = paidR
            and f = "\<lambda>p. p\<lparr>chips := chips p - paidR, bet := totalBet\<rparr>"
            and g' = "g\<lparr>turnEnd := None, pot := pot g + paidR, currentBet := totalBet,
                        minRaise := amount'\<rparr>"])
         (simp_all add: s5r_def frame g1)
    have ku: "keeps s1 sUnk" unfolding sUnk_def by (rule keeps_sendTo)
    have "\<exists>s0. keeps s1 s0 \<and> (awardPotAndEnd s0 = Inr s' \<or> startTurnTimer t s0 = Inr s' \<or>
        (\<exists>kind. advanceTurnAfterAction hv t kind s0 = Inr s'))"
      using assms kf kc k5c ke k5r ku unfolding eq by (auto split: if_splits)
    then obtain s0 where s0: "keeps s1 s0" "loses s0 s'"
      using keeps_awardPotAndEnd keeps_startTurnTimer keeps_loses loses_advanceTurnAfterAction
      by blast
    have "keeps s s0" using k1 s0(1) by (rule keeps_trans)
    then show ?thesis using s0(2) keeps_loses loses_trans by blast
  qed
qed

lemma loses_onTimeout:
  assumes "onTimeout hv e s = Inr s'"
  shows "loses s s'"
proof (cases "turnTimer s")
  case None
  then show ?thesis using assms keeps_refl keeps_loses by (simp add: onTimeout_def)
next
  case (Some curPid)
  note tm = Some
  define s0 where "s0 = s\<lparr>turnTimer := None\<rparr>"
  have k0: "keeps s s0" by (rule keepsI) (simp_all add: s0_def option.rel_refl)
  show ?thesis
  proof (cases "lookup s0 curPid")
    case None
    then have "s' = s0" using assms tm by (simp add: onTimeout_def s0_def)
    then show ?thesis using k0 keeps_loses by simp
  next
    case (Some p)
    note lp = Some
    show ?thesis
    proof (cases "folded p")
      case True
      then have "s' = s0" using assms tm lp by (simp add: onTimeout_def s0_def)
      then show ?thesis using k0 keeps_loses by simp
    next
      case False
      define s2 where "s2 = logToAll (LogTimedOut (name p)) (updPlayer curPid (\<lambda>p. p\<lparr>folded := True\<rparr>) s0)"
      have k2: "keeps s0 s2"
        by (rule keeps_stacksI)
           (simp_all add: s2_def frame stacks_def updPlayer_def case_prod_unfold option.rel_refl)
      have "awardPotAndEnd s2 = Inr s' \<or> advanceTurnAfterAction hv (now e) ''fold'' s2 = Inr s'"
        using assms tm lp False unfolding onTimeout_def s2_def s0_def
        by (auto simp: Let_def split: option.splits if_splits)
      then have "loses s2 s'"
        using keeps_awardPotAndEnd keeps_loses loses_advanceTurnAfterAction by blast
      then show ?thesis using k0 k2 keeps_trans keeps_loses loses_trans by blast
    qed
  qed
qed

subsection \<open>Posting the blinds\<close>

lemma map_of_stacks: "map_of (stacks s) k = map_option chips (lookup s k)"
  unfolding stacks_def lookup_def by (induction "players s" arbitrary: s) (auto simp: map_of_map)

lemma dealPass_stacks: "stacks (fst (dealPass rs (s, d))) = stacks s"
proof (induction rs arbitrary: s d)
  case Nil
  then show ?case by simp
next
  case (Cons r rs)
  have u: "stacks (updPlayer (pId r) (\<lambda>p. p\<lparr>cards := cards p @ [c]\<rparr>) s) = stacks s" for c
    by (rule stacks_updPlayer) simp
  show ?case using Cons.IH u by (simp split: option.splits)
qed

lemma dealPass_game: "game (fst (dealPass rs (s, d))) = game s \<and>
    seats (fst (dealPass rs (s, d))) = seats s \<and>
    dealerIndex (fst (dealPass rs (s, d))) = dealerIndex s"
proof (induction rs arbitrary: s d)
  case Nil
  then show ?case by simp
next
  case (Cons r rs)
  show ?case using Cons.IH by (simp add: updPlayer_frame split: option.splits)
qed

lemma keeps_sendHands: "sendHands rs s = Inr s' \<Longrightarrow> keeps s s'"
proof (induction rs arbitrary: s)
  case Nil
  then show ?case using keeps_refl by simp
next
  case (Cons r rs)
  then obtain p where "lookup s (pId r) = Some p"
    "sendHands rs (sendTo (pId r) (HandMsg (cards p)) s) = Inr s'"
    by (auto split: option.splits)
  then show ?case using Cons.IH keeps_sendTo keeps_trans by blast
qed

lemma stackSum_postBlind:
  assumes "keysOK s" and "lookup s i = Some p" and "b \<le> chips p"
  shows "stackSum (players (postBlind i b s)) = stackSum (players s) - b"
  using stackSum_updPlayer [of s i p "\<lambda>p. p\<lparr>chips := max 0 (chips p - b), bet := b\<rparr>"] assms
  by (simp add: postBlind_def keysOK_def)

lemma startGame_unfold:
  assumes "game s = None" and "\<not> length (seatedIds (seats s)) < 2"
    and "s1 = broadcast GameStarted s"
    and "order = mkSeatOrder (seats s1) (dealerIndex s1)"
    and "g = \<lparr>gid = uuid e, deck = shuffle (random e) mkDeck, community = [], pot = 0,
          smallBlind = 10, bigBlind = 20, gameDealerIndex = dealerIndex s1,
          seatOrder = order, stage = Preflop, currentBet = 0, minRaise = 20,
          actionCount = 0, turnIndex = 0, toCall = 0, turnEnd = None,
          showdownComplete = False, turnPlayerId = None\<rparr>"
    and "s2 = s1\<lparr>players :=
             map (\<lambda>(k, p). (k, p\<lparr>cards := [], folded := (seat p = None),
                                   active := (seat p \<noteq> None), bet := 0\<rparr>))
               (players s1)\<rparr>"
    and "dealt = dealPass order (dealPass order (s2, deck g))"
    and "s3 = fst dealt" and "g3 = g\<lparr>deck := snd dealt\<rparr>"
    and "sb = pId (order ! 0)" and "bb = pId (order ! 1)"
    and "s4 = postBlind sb (smallBlind g3) s3"
    and "g4 = g3\<lparr>pot := pot g3 + smallBlind g3\<rparr>"
    and "s5 = postBlind bb (bigBlind g4) s4"
    and "g5 = g4\<lparr>pot := pot g4 + bigBlind g4, currentBet := bigBlind g4,
             minRaise := bigBlind g4, turnIndex := 2 mod length order\<rparr>"
    and "s6 = s5\<lparr>game := Some g5\<rparr>"
  shows "startGame e s =
      (if length order < 2 then Inl TypeError
       else if lookup s3 sb = None then Inl TypeError
       else if lookup s4 bb = None then Inl TypeError
       else bindE (sendHands order s6) (\<lambda>s7.
            bindE (broadcastState s7) (\<lambda>s8.
            bindE (startTurnTimer (now e) s8) (\<lambda>s9.
            Inr (logToAll LogNewGame s9)))))"
proof -
  have ns: "(length (seatedIds (seats s)) < 2) = False" using assms(2) by simp
  show ?thesis
    apply (simp only: startGame_def assms(1) option.case Let_def simp_thms if_False ns)
    apply (simp only: assms(3) [symmetric])
    apply (simp only: assms(4) [symmetric])
    apply (simp only: assms(5) [symmetric] assms(6) [symmetric])
    apply (simp only: assms(7) [symmetric])
    apply (simp only: assms(8) [symmetric] assms(9) [symmetric]
        assms(10) [symmetric] assms(11) [symmetric])
    apply (simp only: assms(12) [symmetric] assms(13) [symmetric])
    apply (simp only: assms(14) [symmetric])
    apply (simp only: assms(15) [symmetric])
    apply (simp only: assms(16) [symmetric])
    done
qed

lemma startGame_total:
  assumes gs: "game s = None" and k: "keysOK s" and bc: "blindsCovered s"
    and st: "startGame e s = Inr s'"
  shows "totalChips s' = totalChips s \<and> keysOK s'"
proof (cases "length (seatedIds (seats s)) < 2")
  case True
  then show ?thesis using st gs k by (simp add: startGame_def)
next
  case False
  define s1 where "s1 = broadcast GameStarted s"
  define order where "order = mkSeatOrder (seats s1) (dealerIndex s1)"
  define g where
    "g = \<lparr>gid = uuid e, deck = shuffle (random e) mkDeck, community = [], pot = 0,
          smallBlind = 10, bigBlind = 20, gameDealerIndex = dealerIndex s1,
          seatOrder = order, stage = Preflop, currentBet = 0, minRaise = 20,
          actionCount = 0, turnIndex = 0, toCall = 0, turnEnd = None,
          showdownComplete = False, turnPlayerId = None\<rparr>"
  define s2 where
    "s2 = s1\<lparr>players :=
             map (\<lambda>(k, p). (k, p\<lparr>cards := [], folded := (seat p = None),
                                   active := (seat p \<noteq> None), bet := 0\<rparr>))
               (players s1)\<rparr>"
  define dealt where "dealt = dealPass order (dealPass order (s2, deck g))"
  define s3 where "s3 = fst dealt"
  define g3 where "g3 = g\<lparr>deck := snd dealt\<rparr>"
  define sb where "sb = pId (order ! 0)"
  define bb where "bb = pId (order ! 1)"
  define s4 where "s4 = postBlind sb (smallBlind g3) s3"
  define g4 where "g4 = g3\<lparr>pot := pot g3 + smallBlind g3\<rparr>"
  define s5 where "s5 = postBlind bb (bigBlind g4) s4"
  define g5 where
    "g5 = g4\<lparr>pot := pot g4 + bigBlind g4, currentBet := bigBlind g4, minRaise := bigBlind g4,
             turnIndex := 2 mod length order\<rparr>"
  define s6 where "s6 = s5\<lparr>game := Some g5\<rparr>"
  have ord: "order = mkSeatOrder (seats s) (dealerIndex s)"
    by (simp add: order_def s1_def frame)
  have len: "(length order < 2) = False" using bc unfolding blindsCovered_def ord by (simp add: Let_def)
  obtain p0 p1 where p0: "lookup s sb = Some p0" "10 \<le> chips p0"
    and p1: "lookup s bb = Some p1" "20 \<le> chips p1" and ne: "sb \<noteq> bb"
    using bc unfolding blindsCovered_def ord [symmetric] sb_def bb_def
    by (auto simp: Let_def split: option.splits)
  have st2: "stacks s2 = stacks s"
    by (simp add: stacks_def s2_def s1_def frame case_prod_unfold)
  have st3: "stacks s3 = stacks s"
    unfolding s3_def dealt_def
    using dealPass_stacks [of order "fst (dealPass order (s2, deck g))" "snd (dealPass order (s2, deck g))"]
      dealPass_stacks [of order s2 "deck g"] st2 by simp
  have k3: "keysOK s3" using k st3 stacks_keys unfolding keysOK_def by metis
  have c3: "map_option chips (lookup s3 i) = map_option chips (lookup s i)" for i
    using map_of_stacks [of s3 i] map_of_stacks [of s i] st3 by simp
  obtain q0 where q0: "lookup s3 sb = Some q0" "chips q0 = chips p0"
    using c3 [of sb] p0(1) by auto
  obtain q1 where q1: "lookup s3 bb = Some q1" "chips q1 = chips p1"
    using c3 [of bb] p1(1) by auto
  have l0: "(lookup s3 sb = None) = False" using q0 by simp
  have q1': "lookup s4 bb = Some q1"
    using q1(1) ne by (simp add: s4_def postBlind_def lookup_updPlayer)
  have l1: "(lookup s4 bb = None) = False" using q1' by simp
  have eq: "startGame e s =
      bindE (sendHands order s6) (\<lambda>s7.
      bindE (broadcastState s7) (\<lambda>s8.
      bindE (startTurnTimer (now e) s8) (\<lambda>s9.
      Inr (logToAll LogNewGame s9))))"
    unfolding startGame_unfold [OF gs False s1_def order_def g_def s2_def dealt_def s3_def
        g3_def sb_def bb_def s4_def g4_def s5_def g5_def s6_def]
    by (simp only: len l0 l1 if_False)
  obtain s7 s8 s9 where r: "sendHands order s6 = Inr s7" "broadcastState s7 = Inr s8"
    "startTurnTimer (now e) s8 = Inr s9" "s' = logToAll LogNewGame s9"
    using st unfolding eq by (auto simp: bindE_Inr)
  have k6: "keeps s6 s'"
    using keeps_sendHands [OF r(1)] keeps_broadcastState [OF r(2)] keeps_startTurnTimer [OF r(3)]
      keeps_logToAll [of s9 LogNewGame] r(4) keeps_trans by blast
  have k4: "keysOK s4"
    using k3 by (simp add: keysOK_def s4_def postBlind_def updPlayer_frame)
  then have k6': "keysOK s6"
    by (simp add: keysOK_def s6_def s5_def postBlind_def updPlayer_frame)
  have t6: "totalChips s' = totalChips s6" using k6 k6' by (simp add: keeps_def)
  have k': "keysOK s'" using k6 k6' by (simp add: keeps_def keysOK_def)
  have sm: "smallBlind g3 = 10" "bigBlind g4 = 20" "pot g5 = 30"
    by (simp_all add: g5_def g4_def g3_def g_def)
  have "stackSum (players s4) = stackSum (players s3) - 10"
    unfolding s4_def sm using stackSum_postBlind [OF k3 q0(1)] q0(2) p0(2) by simp
  moreover have "stackSum (players s5) = stackSum (players s4) - 20"
    unfolding s5_def sm using stackSum_postBlind [OF k4 q1'] q1(2) p1(2) by simp
  moreover have "stackSum (players s3) = stackSum (players s)"
    using st3 stacks_sum by metis
  ultimately have "totalChips s6 = stackSum (players s)"
    by (simp add: totalChips_def potOf_def s6_def sm)
  then show ?thesis using t6 gs k' by (simp add: totalChips_def potOf_def)
qed

subsection \<open>Showdowns revealed\<close>

lemma sent_frame:
  "sent (updGame f s) = sent s" "sent (updPlayer i h s) = sent s"
  "sent (clearTurnTimer s) = sent s" "sent (broadcast m s) = sent s @ [Broadcast m]"
  "sent (logToAll l s) = sent s @ [Broadcast (Log l)]"
  by (simp_all add: updGame_def updPlayer_def clearTurnTimer_def broadcast_def logToAll_def)

lemma sent_fold_updPlayer: "sent (fold (\<lambda>(i, p). updPlayer i f) ws s) = sent s"
proof (induction ws arbitrary: s)
  case Nil
  then show ?case by simp
next
  case (Cons w ws)
  obtain i p where w: "w = (i, p)" by (cases w)
  show ?case using Cons [of "updPlayer i f s"] by (simp add: w sent_frame)
qed

lemma reveals_sent: "sent s' = sent s \<Longrightarrow> reveals s' = reveals s"
  by (simp add: reveals_def)

lemma reveals_broadcast:
  "reveals (broadcast m s) = reveals s + (if isReveal (Broadcast m) then 1 else 0)"
  by (simp add: reveals_def sent_frame)

lemma reveals_frame:
  "reveals (updGame f s) = reveals s" "reveals (updPlayer i h s) = reveals s"
  "reveals (clearTurnTimer s) = reveals s" "reveals (logToAll l s) = reveals s"
  "reveals (sendTo i m s) = reveals s"
  "reveals (fold (\<lambda>(j, p). updPlayer j h) ws s) = reveals s"
  by (simp_all add: reveals_def sent_frame sent_fold_updPlayer sendTo_def isReveal_def)

lemma isReveal_simps:
  "isReveal (Broadcast (Reveal h c)) = True" "isReveal (Broadcast StateMsg) = False"
  "isReveal (Broadcast (Turn i t)) = False" "isReveal (Broadcast (GameEnded w)) = False"
  "isReveal (Broadcast (Collect i n)) = False" "isReveal (Broadcast (Log l)) = False"
  "isReveal (Broadcast GameStarted) = False"
  by (simp_all add: isReveal_def)

lemma reveals_broadcastState: "broadcastState s = Inr s' \<Longrightarrow> reveals s' = reveals s"
  by (auto simp: broadcastState_def reveals_broadcast isReveal_simps split: option.splits if_splits)

lemma reveals_startTurnTimer: "startTurnTimer t s = Inr s' \<Longrightarrow> reveals s' = reveals s"
  by (auto simp: startTurnTimer_def Let_def reveals_def sent_frame isReveal_simps
           split: option.splits if_splits)

lemma reveals_awardPotAndEnd: "awardPotAndEnd s = Inr s' \<Longrightarrow> reveals s' = reveals s"
  by (auto simp: awardPotAndEnd_def Let_def bindE_Inr broadcastState_def reveals_def sent_frame
        isReveal_simps frame split: option.splits list.splits if_splits)

lemma reveals_startBettingRound:
  assumes "startBettingRound t st s = Inr s'"
  shows "reveals s' = reveals s"
proof (cases "game s")
  case None
  then show ?thesis using assms by (simp add: startBettingRound_def)
next
  case (Some g0)
  define g1 where "g1 = g0\<lparr>stage := st, currentBet := 0, minRaise := bigBlind g0, actionCount := 0,
                       turnIndex := (gameDealerIndex g0 + 1) mod length (seatOrder g0)\<rparr>"
  define s1 where "s1 = s\<lparr>game := Some g1\<rparr>"
  define s2 where "s2 = fold (\<lambda>(i, p). updPlayer i (\<lambda>p. p\<lparr>bet := 0\<rparr>)) (activePlayers s1 g1) s1"
  define s3 where "s3 = updGame (dealCommunity st) s2"
  have eq: "startBettingRound t st s =
      (if numActive s3 g1 \<le> 1 then awardPotAndEnd s3
       else bindE (broadcastState s3) (startTurnTimer t))"
    unfolding startBettingRound_def Some s3_def s2_def s1_def g1_def by (simp add: Let_def)
  have r3: "reveals s3 = reveals s"
    by (simp add: s3_def s2_def s1_def reveals_def sent_frame sent_fold_updPlayer)
  show ?thesis
  proof (cases "numActive s3 g1 \<le> 1")
    case True
    then show ?thesis using assms eq r3 reveals_awardPotAndEnd by auto
  next
    case False
    then obtain s4 where "broadcastState s3 = Inr s4" "startTurnTimer t s4 = Inr s'"
      using assms eq by (auto simp: bindE_Inr)
    then show ?thesis using r3 reveals_broadcastState reveals_startTurnTimer by metis
  qed
qed

lemma reveals_finishShowdown:
  assumes "game s = Some g" and "activePlayers s g \<noteq> []" and "finishShowdown hv s = Inr s'"
  shows "reveals s' = reveals s + 1"
  using assms
  by (auto simp: finishShowdown_def Let_def bindE_Inr broadcastState_def reveals_def sent_frame
        sent_fold_updPlayer isReveal_simps frame fold_updPlayer_frame split: if_splits)

subsection \<open>Steps that keep the chips and reveal nothing\<close>

lemma calmI: "keeps s s' \<Longrightarrow> reveals s' = reveals s \<Longrightarrow> calm s s'"
  by (simp add: calm_def)

lemma calm_refl: "calm s s"
  by (simp add: calm_def keeps_refl)

lemma calm_trans: "calm s s' \<Longrightarrow> calm s' s'' \<Longrightarrow> calm s s''"
  using keeps_trans by (auto simp: calm_def)

lemma calm_broadcastState: "broadcastState s = Inr s' \<Longrightarrow> calm s s'"
  by (simp add: calmI keeps_broadcastState reveals_broadcastState)

lemma calm_startTurnTimer: "startTurnTimer t s = Inr s' \<Longrightarrow> calm s s'"
  by (simp add: calmI keeps_startTurnTimer reveals_startTurnTimer)

lemma calm_awardPotAndEnd: "awardPotAndEnd s = Inr s' \<Longrightarrow> calm s s'"
  by (simp add: calmI keeps_awardPotAndEnd reveals_awardPotAndEnd)

lemma calm_startBettingRound: "startBettingRound t st s = Inr s' \<Longrightarrow> calm s s'"
  by (simp add: calmI keeps_startBettingRound reveals_startBettingRound)

subsection \<open>Steps that settle a hand\<close>

lemma calm_settles: "calm s s' \<Longrightarrow> settles hv s s'"
  by (auto simp: calm_def keeps_def settles_def)

lemma calm_keys: "calm s s' \<Longrightarrow> keysOK s \<Longrightarrow> keysOK s' \<and> totalChips s' = totalChips s"
  by (auto simp: calm_def keeps_def keysOK_def)

lemma settles_calm: "settles hv s s' \<Longrightarrow> reveals s' = reveals s \<Longrightarrow> calm s s'"
  by (auto simp: settles_def calm_def keeps_def split: if_splits)

lemma calm_game: "calm s s' \<Longrightarrow> game s' \<noteq> None \<Longrightarrow> game s \<noteq> None"
  by (auto simp: calm_def keeps_def sameRound_def split: option.splits)

lemma settles_trans:
  assumes a: "settles hv s s'" and b: "settles hv s' s''"
  shows "settles hv s s''"
proof -
  have k: "map fst (players s'') = map fst (players s)" using a b by (simp add: settles_def)
  have r: "sameRound s s''" using a b sameRound_trans by (auto simp: settles_def)
  show ?thesis
  proof (cases "keysOK s")
    case False
    then show ?thesis using k r by (simp add: settles_def)
  next
    case True
    then have k': "keysOK s'" using a by (simp add: settles_def keysOK_def)
    consider (quiet1) "reveals s' = reveals s" "totalChips s' = totalChips s"
      | (show1) "reveals s' = reveals s + 1" "game s' = None"
        "\<exists>s3 g s4. calm s s3 \<and> game s3 = Some g \<and> activePlayers s3 g \<noteq> [] \<and>
           finishShowdown hv s3 = Inr s4 \<and> calm s4 s' \<and>
           totalChips s' = totalChips s - pot g mod int (length (winnerIds hv s3 g))"
      using a True by (auto simp: settles_def)
    then show ?thesis
    proof cases
      case quiet1
      have c1: "calm s s'" using a quiet1(1) by (rule settles_calm)
      consider (quiet2) "reveals s'' = reveals s'" "totalChips s'' = totalChips s'"
        | (show2) "reveals s'' = reveals s' + 1" "game s'' = None"
          "\<exists>s3 g s4. calm s' s3 \<and> game s3 = Some g \<and> activePlayers s3 g \<noteq> [] \<and>
             finishShowdown hv s3 = Inr s4 \<and> calm s4 s'' \<and>
             totalChips s'' = totalChips s' - pot g mod int (length (winnerIds hv s3 g))"
        using b k' by (auto simp: settles_def)
      then show ?thesis
      proof cases
        case quiet2
        then show ?thesis using k r True quiet1 by (simp add: settles_def)
      next
        case show2
        then obtain s3 g s4 where w: "calm s' s3" "game s3 = Some g" "activePlayers s3 g \<noteq> []"
          "finishShowdown hv s3 = Inr s4" "calm s4 s''"
          "totalChips s'' = totalChips s' - pot g mod int (length (winnerIds hv s3 g))"
          by blast
        have "calm s s3" using c1 w(1) by (rule calm_trans)
        moreover have "totalChips s'' = totalChips s - pot g mod int (length (winnerIds hv s3 g))"
          using w(6) quiet1(2) by simp
        ultimately have "\<exists>s3 g s4. calm s s3 \<and> game s3 = Some g \<and> activePlayers s3 g \<noteq> [] \<and>
             finishShowdown hv s3 = Inr s4 \<and> calm s4 s'' \<and>
             totalChips s'' = totalChips s - pot g mod int (length (winnerIds hv s3 g))"
          using w(2-5) by blast
        then show ?thesis
          using k r True show2(1,2) quiet1(1) by (simp add: settles_def)
      qed
    next
      case show1
      then obtain s3 g s4 where w: "calm s s3" "game s3 = Some g" "activePlayers s3 g \<noteq> []"
        "finishShowdown hv s3 = Inr s4" "calm s4 s'"
        "totalChips s' = totalChips s - pot g mod int (length (winnerIds hv s3 g))"
        by blast
      have q: "reveals s'' = reveals s' \<and> totalChips s'' = totalChips s'"
      proof -
        have "\<not> (\<exists>s3. calm s' s3 \<and> game s3 \<noteq> None)"
          using calm_game show1(2) by blast
        then show ?thesis using b k' by (auto simp: settles_def)
      qed
      have c2: "calm s' s''" using b q by (simp add: settles_calm)
      have g'': "game s'' = None"
        using b show1(2) sameRound_None [of s' s''] by (simp add: settles_def)
      have "calm s4 s''" using w(5) c2 by (rule calm_trans)
      moreover have "totalChips s'' = totalChips s - pot g mod int (length (winnerIds hv s3 g))"
        using w(6) q by simp
      ultimately have "\<exists>s3 g s4. calm s s3 \<and> game s3 = Some g \<and> activePlayers s3 g \<noteq> [] \<and>
             finishShowdown hv s3 = Inr s4 \<and> calm s4 s'' \<and>
             totalChips s'' = totalChips s - pot g mod int (length (winnerIds hv s3 g))"
        using w(1-4) by blast
      then show ?thesis
        using k r True show1(1) q g'' by (simp add: settles_def)
    qed
  qed
qed

lemma calm_then_settles: "calm s s1 \<Longrightarrow> settles hv s1 s' \<Longrightarrow> settles hv s s'"
  using calm_settles settles_trans by blast

lemma finishShowdown_total:
  assumes "game s = Some g" and "activePlayers s g \<noteq> []" and "keysOK s"
    and "finishShowdown hv s = Inr s'"
  shows "totalChips s' = totalChips s - pot g mod int (length (winnerIds hv s g))"
proof -
  define n where "n = length (winnerIds hv s g)"
  define share where "share = pot g div int n"
  let ?W = "winnerPlayers hv s g"
  let ?s2 = "fold (\<lambda>(i, p). updPlayer i (\<lambda>p. p\<lparr>chips := chips p + share\<rparr>)) ?W s"
  have r: "game s' = None" "players s' = players ?s2"
    using finishShowdown_result [OF assms(1,2), of hv] assms(4) unfolding share_def n_def by auto
  have len: "length ?W = n" by (simp add: n_def winnerIds_def)
  have pres: "\<forall>w \<in> set ?W. lookup s (fst w) \<noteq> None"
    unfolding winnerPlayers_filter using activePlayers_lookup [of _ _ s g] by fastforce
  have "stackSum (players s') = stackSum (players s) + share * int n"
    unfolding r(2) using stackSum_fold_award [OF _ pres, of share] assms(3) len
    by (simp add: keysOK_def)
  also have "\<dots> = stackSum (players s) + (pot g - pot g mod int n)"
    unfolding share_def by (simp add: div_times_length)
  finally show ?thesis using assms(1) r(1) by (simp add: totalChips_def potOf_def n_def)
qed

lemma settles_finishShowdown:
  assumes "finishShowdown hv s = Inr s'"
  shows "settles hv s s'"
proof (cases "game s")
  case None
  then have "s' = s" using assms by (simp add: finishShowdown_def)
  then show ?thesis using calm_refl calm_settles by simp
next
  case (Some g)
  show ?thesis
  proof (cases "activePlayers s g = []")
    case True
    then have "s' = s" using assms Some by (simp add: finishShowdown_def)
    then show ?thesis using calm_refl calm_settles by simp
  next
    case False
    have l: "loses s s'" using assms by (rule loses_finishShowdown)
    have g': "game s' = None" using finishShowdown_result [OF Some False, of hv] assms by auto
    have rv: "reveals s' = reveals s + 1" using reveals_finishShowdown [OF Some False assms] .
    have "\<exists>s3 g s4. calm s s3 \<and> game s3 = Some g \<and> activePlayers s3 g \<noteq> [] \<and>
             finishShowdown hv s3 = Inr s4 \<and> calm s4 s' \<and>
             totalChips s' = totalChips s - pot g mod int (length (winnerIds hv s3 g))"
      if "keysOK s"
      using finishShowdown_total [OF Some False that assms] Some False assms calm_refl by blast
    then show ?thesis using l g' rv by (auto simp: settles_def loses_def)
  qed
qed

lemma settles_advanceTurnAfterAction:
  assumes "advanceTurnAfterAction hv t kind s = Inr s'"
  shows "settles hv s s'"
proof (cases "game s")
  case None
  then show ?thesis using assms calm_refl calm_settles by (simp add: advanceTurnAfterAction_def)
next
  case (Some g0)
  note g = Some
  define g1 where "g1 = (if kind \<noteq> ''fold'' then g0\<lparr>actionCount := actionCount g0 + 1\<rparr> else g0)"
  define s1 where "s1 = s\<lparr>game := Some g1\<rparr>"
  have k1: "calm s s1"
    by (rule calmI [OF keepsI]) (simp_all add: s1_def g g1_def reveals_def)
  show ?thesis
  proof (cases "nextActiveIndex s1 g1 (turnIndex g1)")
    case None
    have "advanceTurnAfterAction hv t kind s = awardPotAndEnd s1"
      apply (simp only: advanceTurnAfterAction_def g option.case Let_def)
      apply (simp only: g1_def [symmetric] s1_def [symmetric])
      apply (simp only: None option.case)
      done
    then have "awardPotAndEnd s1 = Inr s'" using assms by simp
    then show ?thesis using k1 calm_awardPotAndEnd calm_trans calm_settles by blast
  next
    case (Some nextIdx)
    note nx = Some
    define g2 where "g2 = g1\<lparr>turnIndex := nextIdx\<rparr>"
    define s2 where "s2 = s1\<lparr>game := Some g2\<rparr>"
    define s3 where "s3 = updGame (\<lambda>g. g\<lparr>actionCount := 0\<rparr>) s2"
    define roundComplete where
      "roundComplete = (if currentBet g2 = 0 then actionCount g2 \<ge> int (length (activePlayers s2 g2))
                        else everyoneMatchedCurrentBet s2 g2)"
    have eq: "advanceTurnAfterAction hv t kind s =
        (if length (activePlayers s2 g2) \<le> 1 then awardPotAndEnd s2
         else if roundComplete then
           (case stage g2 of
              Preflop \<Rightarrow> startBettingRound t Flop s3
            | Flop \<Rightarrow> startBettingRound t TurnStage s3
            | TurnStage \<Rightarrow> startBettingRound t River s3
            | River \<Rightarrow> finishShowdown hv s3)
         else bindE (broadcastState s2) (startTurnTimer t))"
      apply (simp only: advanceTurnAfterAction_def g option.case Let_def)
      apply (simp only: g1_def [symmetric] s1_def [symmetric])
      apply (simp only: nx option.case)
      apply (simp only: g2_def [symmetric] s2_def [symmetric] s3_def [symmetric]
          roundComplete_def [symmetric])
      done
    have k2: "calm s s2"
      by (rule calmI [OF keepsI]) (simp_all add: s2_def s1_def g g2_def g1_def reveals_def)
    have "reveals s3 = reveals s"
      by (simp add: s3_def reveals_frame) (simp add: reveals_def s2_def s1_def)
    then have k3: "calm s s3"
      by (rule calmI [OF keepsI, rotated 2])
         (simp_all add: s3_def frame s2_def s1_def g g2_def g1_def)
    show ?thesis
    proof (cases "length (activePlayers s2 g2) \<le> 1")
      case True
      then have "awardPotAndEnd s2 = Inr s'" using assms eq by simp
      then show ?thesis using k2 calm_awardPotAndEnd calm_trans calm_settles by blast
    next
      case False
      show ?thesis
      proof (cases roundComplete)
        case True
        have "startBettingRound t Flop s3 = Inr s' \<or> startBettingRound t TurnStage s3 = Inr s' \<or>
            startBettingRound t River s3 = Inr s' \<or> finishShowdown hv s3 = Inr s'"
          using assms eq False True by (cases "stage g2") simp_all
        then have "settles hv s3 s'"
          using calm_startBettingRound calm_settles settles_finishShowdown by blast
        then show ?thesis using k3 by (rule calm_then_settles [rotated])
      next
        case rc: False
        then obtain s4 where "broadcastState s2 = Inr s4" "startTurnTimer t s4 = Inr s'"
          using assms eq False by (auto simp: bindE_Inr)
        then show ?thesis
          using k2 calm_broadcastState calm_startTurnTimer calm_trans calm_settles by blast
      qed
    qed
  qed
qed

lemma settles_processAction:
  assumes "processAction hv t i a n s = Inr s'"
  shows "settles hv s s'"
proof (cases "game s")
  case None
  then have "s' = sendTo i (Error NoGameInProgress) s"
    using assms by (simp add: processAction_def)
  then show ?thesis using keeps_sendTo calmI calm_settles by (simp add: reveals_frame)
next
  case (Some g)
  note g = Some
  have so: "(seatOrder g = []) = False"
    using assms g by (auto simp: processAction_def)
  show ?thesis
  proof (cases "pId (seatOrder g ! (turnIndex g mod length (seatOrder g))) \<noteq> i")
    case True
    then have "s' = sendTo i (Error NotYourTurn) s"
      using assms g so by (simp add: processAction_def Let_def)
    then show ?thesis using keeps_sendTo calmI calm_settles by (simp add: reveals_frame)
  next
    case False
    then have cp: "(pId (seatOrder g ! (turnIndex g mod length (seatOrder g))) \<noteq> i) = False"
      by simp
    define s1 where "s1 = clearTurnTimer s"
    have k1: "calm s s1" unfolding s1_def
      by (rule calmI [OF keeps_clearTurnTimer]) (simp add: reveals_frame)
    have g1: "game s1 = Some (g\<lparr>turnEnd := None\<rparr>)" by (simp add: s1_def frame g)
    have "lookup s1 i \<noteq> None"
      using assms g so cp unfolding s1_def
      by (auto simp: processAction_def Let_def split: option.splits)
    then obtain p where lp: "lookup s1 i = Some p" by blast
    define toCall where "toCall = callAmount g p"
    define s3f where "s3f = logToAll (LogFolds (name p)) (updPlayer i (\<lambda>p. p\<lparr>folded := True\<rparr>) s1)"
    define sCheck where "sCheck = logToAll (LogChecks (name p)) s1"
    define paidC where "paidC = min toCall (chips p)"
    define s5c where
      "s5c = broadcast (Collect i paidC) (logToAll (LogCalls (name p) paidC)
               (updGame (\<lambda>g. g\<lparr>pot := pot g + paidC\<rparr>)
                 (updPlayer i (\<lambda>p. p\<lparr>chips := chips p - paidC, bet := bet p + paidC\<rparr>) s1)))"
    define sErr where "sErr = sendTo i (Error (RaiseAtLeast (minRaise g))) s1"
    define totalBet where "totalBet = bet p + toCall + n"
    define paidR where "paidR = (if toCall + n > chips p then chips p else toCall + n)"
    define amount' where "amount' = (if toCall + n > chips p then paidR - toCall else n)"
    define s5r where
      "s5r = logToAll (LogRaisesTo (name p) totalBet) (broadcast (Collect i paidR)
               (updGame (\<lambda>g. g\<lparr>pot := pot g + paidR, currentBet := totalBet, minRaise := amount'\<rparr>)
                 (updPlayer i (\<lambda>p. p\<lparr>chips := chips p - paidR, bet := totalBet\<rparr>) s1)))"
    define sUnk where "sUnk = sendTo i (Error UnknownAction) s1"
    have eq: "processAction hv t i a n s =
        (if a = ''fold'' then
           (if numActive s3f g \<le> 1 then awardPotAndEnd s3f
            else advanceTurnAfterAction hv t a s3f)
         else if a = ''call'' \<or> a = ''check'' then
           (if toCall = 0 then advanceTurnAfterAction hv t a sCheck
            else advanceTurnAfterAction hv t a s5c)
         else if a = ''raise'' then
           (if n < minRaise g then startTurnTimer t sErr
            else advanceTurnAfterAction hv t ''raise'' s5r)
         else startTurnTimer t sUnk)"
      apply (simp only: processAction_def g option.case so cp if_False Let_def)
      apply (simp only: s1_def [symmetric])
      apply (simp only: lp option.case)
      apply (simp only: toCall_def [symmetric])
      apply (simp only: paidC_def [symmetric] paidR_def [symmetric] totalBet_def [symmetric])
      apply (simp only: amount'_def [symmetric])
      apply (simp only: s3f_def [symmetric] sCheck_def [symmetric] s5c_def [symmetric]
          sErr_def [symmetric] s5r_def [symmetric] sUnk_def [symmetric])
      done
    have "reveals s3f = reveals s1" by (simp add: s3f_def reveals_frame)
    then have kf: "calm s1 s3f"
      by (rule calmI [OF keeps_stacksI, rotated 2])
         (simp_all add: s3f_def frame stacks_def updPlayer_def case_prod_unfold option.rel_refl)
    have kc: "calm s1 sCheck" unfolding sCheck_def
      by (rule calmI [OF keeps_logToAll]) (simp add: reveals_frame)
    have k5c: "calm s1 s5c"
      by (rule calmI [OF keeps_pay [OF lp g1, where paid = paidC
            and f = "\<lambda>p. p\<lparr>chips := chips p - paidC, bet := bet p + paidC\<rparr>"
            and g' = "g\<lparr>turnEnd := None, pot := pot g + paidC\<rparr>"]])
         (simp_all add: s5c_def frame g1 reveals_frame reveals_broadcast isReveal_simps)
    have ke: "calm s1 sErr" unfolding sErr_def
      by (rule calmI [OF keeps_sendTo]) (simp add: reveals_frame)
    have k5r: "calm s1 s5r"
      by (rule calmI [OF keeps_pay [OF lp g1, where paid = paidR
            and f = "\<lambda>p. p\<lparr>chips := chips p - paidR, bet := totalBet\<rparr>"
            and g' = "g\<lparr>turnEnd := None, pot := pot g + paidR, currentBet := totalBet,
                        minRaise := amount'\<rparr>"]])
         (simp_all add: s5r_def frame g1 reveals_frame reveals_broadcast isReveal_simps)
    have ku: "calm s1 sUnk" unfolding sUnk_def
      by (rule calmI [OF keeps_sendTo]) (simp add: reveals_frame)
    have "\<exists>s0. calm s1 s0 \<and> (awardPotAndEnd s0 = Inr s' \<or> startTurnTimer t s0 = Inr s' \<or>
        (\<exists>kind. advanceTurnAfterAction hv t kind s0 = Inr s'))"
      using assms kf kc k5c ke k5r ku unfolding eq by (auto split: if_splits)
    then obtain s0 where s0: "calm s1 s0" "settles hv s0 s'"
      using calm_awardPotAndEnd calm_startTurnTimer calm_settles settles_advanceTurnAfterAction
      by blast
    have "calm s s0" using k1 s0(1) by (rule calm_trans)
    then show ?thesis using s0(2) by (rule calm_then_settles)
  qed
qed

lemma settles_onTimeout:
  assumes "onTimeout hv e s = Inr s'"
  shows "settles hv s s'"
proof (cases "turnTimer s")
  case None
  then show ?thesis using assms calm_refl calm_settles by (simp add: onTimeout_def)
next
  case (Some curPid)
  note tm = Some
  define s0 where "s0 = s\<lparr>turnTimer := None\<rparr>"
  have k0: "calm s s0"
    by (rule calmI [OF keepsI]) (simp_all add: s0_def option.rel_refl reveals_def)
  show ?thesis
  proof (cases "lookup s0 curPid")
    case None
    then have "s' = s0" using assms tm by (simp add: onTimeout_def s0_def)
    then show ?thesis using k0 calm_settles by simp
  next
    case (Some p)
    note lp = Some
    show ?thesis
    proof (cases "folded p")
      case True
      then have "s' = s0" using assms tm lp by (simp add: onTimeout_def s0_def)
      then show ?thesis using k0 calm_settles by simp
    next
      case False
      define s2 where "s2 = logToAll (LogTimedOut (name p)) (updPlayer curPid (\<lambda>p. p\<lparr>folded := True\<rparr>) s0)"
      have "reveals s2 = reveals s0" by (simp add: s2_def reveals_frame)
      then have k2: "calm s0 s2"
        by (rule calmI [OF keeps_stacksI, rotated 2])
           (simp_all add: s2_def frame stacks_def updPlayer_def case_prod_unfold option.rel_refl)
      have "awardPotAndEnd s2 = Inr s' \<or> advanceTurnAfterAction hv (now e) ''fold'' s2 = Inr s'"
        using assms tm lp False unfolding onTimeout_def s2_def s0_def
        by (auto simp: Let_def split: option.splits if_splits)
      then have "settles hv s2 s'"
        using calm_awardPotAndEnd calm_settles settles_advanceTurnAfterAction by blast
      then show ?thesis using k0 k2 calm_trans calm_then_settles by blast
    qed
  qed
qed

lemma settles_run:
  assumes "list_all handEvent evs" and "run hv evs s = Inr s'"
  shows "settles hv s s'"
  using assms
proof (induction evs arbitrary: s)
  case Nil
  then show ?case using calm_refl calm_settles by simp
next
  case (Cons ee evs)
  obtain s1 where s1: "step hv ee s = Inr s1" "run hv evs s1 = Inr s'"
    using Cons.prems(2) by (auto simp: bindE_Inr)
  have "settles hv s s1"
    using s1(1) Cons.prems(1) settles_processAction settles_onTimeout
    by (auto simp: step_def handEvent_def onMessage_def
             split: event.splits inbound.splits option.splits)
  moreover have "settles hv s1 s'" using Cons.IH [OF _ s1(2)] Cons.prems(1) by simp
  ultimately show ?case by (rule settles_trans)
qed

subsection \<open>Chip conservation\<close>

text \<open>
  Claim C1 (chip conservation), as the code has it, for amounts that are integers of
  magnitude at most \<open>2^48\<close>. Let a hand be started at a table with no Round, where the two
  seats that post the blinds are held by different players with at least 10 and 20 chips.
  Posting the blinds leaves the sum of all stacks and the pot as it was. After every
  sequence of actions and timeouts in which no showdown took place, the sum is exactly
  what it was at the start of the hand: while the Round exists, and also after the pot
  went to the last player left. If a showdown took place, the hand is over, and the sum
  is the total of the start less the remainder of the pot divided by the number of
  winners: the showdown ran on a state \<open>s3\<close> that still held every chip, with the Round
  \<open>g\<close>, and nothing after it moved a chip.
\<close>

theorem chip_conservation:
  assumes "game s = None" and "keysOK s" and "blindsCovered s" and "small s"
    and "startGame e s = Inr s1"
    and "list_all handEvent evs" and "list_all smallEvent evs"
    and "list_all small (states hv evs s1)"
    and "run hv evs s1 = Inr s2"
  shows "totalChips s1 = totalChips s \<and>
         (game s2 \<noteq> None \<longrightarrow> totalChips s2 = totalChips s) \<and>
         (reveals s2 = reveals s1 \<longrightarrow> totalChips s2 = totalChips s) \<and>
         (reveals s2 \<noteq> reveals s1 \<longrightarrow>
            game s2 = None \<and>
            (\<exists>s3 g s4. calm s1 s3 \<and> totalChips s3 = totalChips s \<and> game s3 = Some g \<and>
               activePlayers s3 g \<noteq> [] \<and> finishShowdown hv s3 = Inr s4 \<and> calm s4 s2 \<and>
               totalChips s2 = totalChips s - pot g mod int (length (winnerIds hv s3 g))))"
proof -
  have 1: "totalChips s1 = totalChips s" "keysOK s1"
    using startGame_total [OF assms(1,2,3,5)] by simp_all
  have st: "settles hv s1 s2" using settles_run [OF assms(6,9)] .
  consider (quiet) "reveals s2 = reveals s1" "totalChips s2 = totalChips s1"
    | (showdown) "reveals s2 = reveals s1 + 1" "game s2 = None"
      "\<exists>s3 g s4. calm s1 s3 \<and> game s3 = Some g \<and> activePlayers s3 g \<noteq> [] \<and>
         finishShowdown hv s3 = Inr s4 \<and> calm s4 s2 \<and>
         totalChips s2 = totalChips s1 - pot g mod int (length (winnerIds hv s3 g))"
    using st 1(2) by (auto simp: settles_def)
  then show ?thesis
  proof cases
    case quiet
    then show ?thesis using 1(1) by simp
  next
    case showdown
    then obtain s3 g s4 where w: "calm s1 s3" "game s3 = Some g" "activePlayers s3 g \<noteq> []"
      "finishShowdown hv s3 = Inr s4" "calm s4 s2"
      "totalChips s2 = totalChips s1 - pot g mod int (length (winnerIds hv s3 g))"
      by blast
    have "totalChips s3 = totalChips s" using calm_keys [OF w(1) 1(2)] 1(1) by simp
    then have "\<exists>s3 g s4. calm s1 s3 \<and> totalChips s3 = totalChips s \<and> game s3 = Some g \<and>
               activePlayers s3 g \<noteq> [] \<and> finishShowdown hv s3 = Inr s4 \<and> calm s4 s2 \<and>
               totalChips s2 = totalChips s - pot g mod int (length (winnerIds hv s3 g))"
      using w 1(1) by auto
    then show ?thesis using showdown(1,2) 1(1) by simp
  qed
qed

theorem chip_conservation_witness:
  "totalChips (after twoSeated) = 2000 \<and> totalChips (after headsUp) = 2000 \<and>
   stacks (after (headsUp @ foldOut)) = [(''a'', 990), (''b'', 1010)] \<and>
   game (after (headsUp @ foldOut)) = None \<and>
   totalChips (after (headsUp @ foldOut)) = 2000 \<and>
   totalChips (after threeSeated) = 3000 \<and> totalChips (afterScore royalStarted) = 3000 \<and>
   reveals (afterScore (royalStarted @ toShowdown)) = 1 \<and>
   game (afterScore (royalStarted @ toShowdown)) = None"
proof -
  have g: "game (after twoSeated) = None" by code_simp
  have k: "keysOK (after twoSeated)" by code_simp
  have b: "blindsCovered (after twoSeated)" by code_simp
  have m: "small (after twoSeated)" by code_simp
  have s: "startGame (envAt ''g1'') (after twoSeated) = Inr (after headsUp)" by code_simp
  have h: "list_all handEvent foldOut" by code_simp
  have e: "list_all smallEvent foldOut" by code_simp
  have l: "list_all small (states hvZero foldOut (after headsUp))" by code_simp
  have r: "run hvZero foldOut (after headsUp) = Inr (after (headsUp @ foldOut))"
    by code_simp
  have t: "totalChips (after twoSeated) = 2000" by code_simp
  have v: "reveals (after (headsUp @ foldOut)) = reveals (after headsUp)" by code_simp
  have n: "game (after (headsUp @ foldOut)) = None" by code_simp
  have st: "stacks (after (headsUp @ foldOut)) = [(''a'', 990), (''b'', 1010)]" by code_simp
  from chip_conservation [OF g k b m s h e l r] t v
  have 1: "totalChips (after headsUp) = 2000 \<and> totalChips (after (headsUp @ foldOut)) = 2000"
    by simp
  have g3: "game (after threeSeated) = None" by code_simp
  have k3: "keysOK (after threeSeated)" by code_simp
  have b3: "blindsCovered (after threeSeated)" by code_simp
  have m3: "small (after threeSeated)" by code_simp
  have s3: "startGame (envRoyal ''g1'') (after threeSeated) = Inr (afterScore royalStarted)"
    by code_simp
  have h3: "list_all handEvent toShowdown" by code_simp
  have e3: "list_all smallEvent toShowdown" by code_simp
  have l3: "list_all small (states hvScore toShowdown (afterScore royalStarted))" by code_simp
  have r3: "run hvScore toShowdown (afterScore royalStarted) =
      Inr (afterScore (royalStarted @ toShowdown))"
    by code_simp
  have t3: "totalChips (after threeSeated) = 3000" by code_simp
  have v0: "reveals (afterScore royalStarted) = 0" by code_simp
  have v3: "reveals (afterScore (royalStarted @ toShowdown)) = 1" by code_simp
  from chip_conservation [OF g3 k3 b3 m3 s3 h3 e3 l3 r3] t3 v0 v3
  have 2: "totalChips (afterScore royalStarted) = 3000 \<and>
      game (afterScore (royalStarted @ toShowdown)) = None"
    by simp
  show ?thesis using 1 2 t st n t3 v3 by simp
qed

text \<open>
  The claim as stated fails at the showdown. Three players with 1000 chips each play a
  hand whose board comes Ah Kh Qh Jh Th: the royal flush on the board is the best hand of
  every player, under any ranking of poker hands; the ranking taken here is the score of
  \<open>evaluate7\<close>. There are 3000 chips in the stacks and the pot after the blinds. c folds
  on the flop, the pot of 123 is split between a and b at the showdown, 61 each, and 2999
  chips remain.
\<close>

theorem chip_conservation_showdown_loss:
  "blindsCovered (after threeSeated) \<and>
   holeCards (afterScore royalStarted) =
     [(''a'', [Some ''2s'', Some ''7d'']), (''b'', [Some ''2h'', Some ''7c'']),
      (''c'', [Some ''3s'', Some ''8d''])] \<and>
   totalChips (afterScore royalStarted) = 3000 \<and>
   board (afterScore (royalStarted @ take 9 toShowdown)) =
     [Some ''Ah'', Some ''Kh'', Some ''Qh'', Some ''Jh'', Some ''Th''] \<and>
   stacks (afterScore (royalStarted @ take 9 toShowdown)) =
     [(''a'', 959), (''b'', 959), (''c'', 959)] \<and>
   map_option pot (game (afterScore (royalStarted @ take 9 toShowdown))) = Some 123 \<and>
   totalChips (afterScore (royalStarted @ take 9 toShowdown)) = 3000 \<and>
   hvScore [Some ''2s'', Some ''7d'', Some ''Ah'', Some ''Kh'', Some ''Qh'', Some ''Jh'', Some ''Th''] =
   hvScore [Some ''2h'', Some ''7c'', Some ''Ah'', Some ''Kh'', Some ''Qh'', Some ''Jh'', Some ''Th''] \<and>
   stacks (afterScore (royalStarted @ toShowdown)) =
     [(''a'', 1020), (''b'', 1020), (''c'', 959)] \<and>
   game (afterScore (royalStarted @ toShowdown)) = None \<and>
   totalChips (afterScore (royalStarted @ toShowdown)) = 2999"
  by code_simp

text \<open>
  A blind poster who cannot cover the blind is outside the theorem above. There the stack
  stops at 0 while the pot receives the whole blind: b wins a hand that leaves a with 5
  chips, and when a posts the big blind of the next hand the 2000 chips become 2015.
\<close>

lemma short_blind_total:
  "stacks (after shortBlind) = [(''a'', 5), (''b'', 1995)] \<and>
   totalChips (after shortBlind) = 2000 \<and>
   stacks (after (shortBlind @ [(envAt ''g2'', Message ''b'' StartGame)])) =
     [(''a'', 0), (''b'', 1985)] \<and>
   map_option pot (game (after (shortBlind @ [(envAt ''g2'', Message ''b'' StartGame)]))) =
     Some 30 \<and>
   totalChips (after (shortBlind @ [(envAt ''g2'', Message ''b'' StartGame)])) = 2015"
  by code_simp


subsection \<open>The Round of every reachable state\<close>

lemma roundOK_sameRound: "roundOK s \<Longrightarrow> sameRound s s' \<Longrightarrow> roundOK s'"
  by (auto simp: roundOK_def sameRound_def split: option.splits)

lemma roundOK_game: "roundOK s \<Longrightarrow> game s' = game s \<Longrightarrow> roundOK s'"
  by (simp add: roundOK_def)

lemma game_broadcastState: "broadcastState s = Inr s' \<Longrightarrow> game s' = game s"
  by (auto simp: broadcastState_def frame split: option.splits if_splits)

lemma game_connection: "connection e s = Inr s' \<Longrightarrow> game s' = game s"
  by (auto simp: connection_def Let_def setPlayer_def frame dest!: game_broadcastState
           split: option.splits if_splits)

lemma game_takeSeat: "takeSeat i p n s = Inr s' \<Longrightarrow> game s' = game s"
  by (auto simp: takeSeat_def Let_def setSeat_def frame dest!: game_broadcastState
           split: if_splits)

lemma game_leaveSeat: "leaveSeat i p s = Inr s' \<Longrightarrow> game s' = game s"
  by (auto simp: leaveSeat_def Let_def setSeat_def frame dest!: game_broadcastState
           split: if_splits option.splits)

lemma roundOK_startGame_fresh:
  assumes gs: "game s = None" and st: "startGame e s = Inr s'"
  shows "roundOK s'"
proof (cases "length (seatedIds (seats s)) < 2")
  case True
  then show ?thesis using st gs by (simp add: startGame_def roundOK_def)
next
  case False
  define s1 where "s1 = broadcast GameStarted s"
  define order where "order = mkSeatOrder (seats s1) (dealerIndex s1)"
  define g where
    "g = \<lparr>gid = uuid e, deck = shuffle (random e) mkDeck, community = [], pot = 0,
          smallBlind = 10, bigBlind = 20, gameDealerIndex = dealerIndex s1,
          seatOrder = order, stage = Preflop, currentBet = 0, minRaise = 20,
          actionCount = 0, turnIndex = 0, toCall = 0, turnEnd = None,
          showdownComplete = False, turnPlayerId = None\<rparr>"
  define s2 where
    "s2 = s1\<lparr>players :=
             map (\<lambda>(k, p). (k, p\<lparr>cards := [], folded := (seat p = None),
                                   active := (seat p \<noteq> None), bet := 0\<rparr>))
               (players s1)\<rparr>"
  define dealt where "dealt = dealPass order (dealPass order (s2, deck g))"
  define s3 where "s3 = fst dealt"
  define g3 where "g3 = g\<lparr>deck := snd dealt\<rparr>"
  define sb where "sb = pId (order ! 0)"
  define bb where "bb = pId (order ! 1)"
  define s4 where "s4 = postBlind sb (smallBlind g3) s3"
  define g4 where "g4 = g3\<lparr>pot := pot g3 + smallBlind g3\<rparr>"
  define s5 where "s5 = postBlind bb (bigBlind g4) s4"
  define g5 where
    "g5 = g4\<lparr>pot := pot g4 + bigBlind g4, currentBet := bigBlind g4, minRaise := bigBlind g4,
             turnIndex := 2 mod length order\<rparr>"
  define s6 where "s6 = s5\<lparr>game := Some g5\<rparr>"
  note eq = startGame_unfold [OF gs False s1_def order_def g_def s2_def dealt_def s3_def
      g3_def sb_def bb_def s4_def g4_def s5_def g5_def s6_def]
  have len: "\<not> length order < 2" using st unfolding eq by (auto split: if_splits)
  obtain s7 s8 s9 where r: "sendHands order s6 = Inr s7" "broadcastState s7 = Inr s8"
    "startTurnTimer (now e) s8 = Inr s9" "s' = logToAll LogNewGame s9"
    using st unfolding eq by (auto simp: bindE_Inr split: if_splits)
  have k6: "keeps s6 s'"
    using keeps_sendHands [OF r(1)] keeps_broadcastState [OF r(2)] keeps_startTurnTimer [OF r(3)]
      keeps_logToAll [of s9 LogNewGame] r(4) keeps_trans by blast
  have "seatOrder g5 = order" "turnPlayerId g5 = None"
    by (simp_all add: g5_def g4_def g3_def g_def)
  then have "roundOK s6" using len by (auto simp: roundOK_def s6_def)
  then show ?thesis using k6 roundOK_sameRound by (auto simp: keeps_def)
qed

lemma roundOK_startGame:
  assumes "roundOK s" and "startGame e s = Inr s'"
  shows "roundOK s'"
proof (cases "game s")
  case None
  then show ?thesis using assms(2) by (rule roundOK_startGame_fresh)
next
  case (Some g)
  show ?thesis
  proof (cases "showdownComplete g")
    case True
    have "startGame e s = startGame e (s\<lparr>game := None\<rparr>)"
      using Some True by (simp add: startGame_def)
    then have "startGame e (s\<lparr>game := None\<rparr>) = Inr s'" using assms(2) by simp
    then show ?thesis by (rule roundOK_startGame_fresh [rotated]) simp
  next
    case False
    then have "s' = s" using assms(2) Some by (simp add: startGame_def)
    then show ?thesis using assms(1) by simp
  qed
qed

lemma roundOK_onMessage:
  assumes "roundOK s" and "onMessage hv e i d s = Inr s'"
  shows "roundOK s'"
proof -
  obtain p where p: "lookup s i = Some p"
    using assms(2) by (auto simp: onMessage_def split: option.splits)
  show ?thesis
  proof (cases d)
    case (Join nm)
    then have "game s' = game s"
      using assms(2) p
      by (auto simp: onMessage_def Let_def frame dest!: game_broadcastState split: if_splits)
    then show ?thesis using assms(1) roundOK_game by blast
  next
    case (TakeSeat n)
    then show ?thesis using assms p game_takeSeat roundOK_game by (auto simp: onMessage_def)
  next
    case LeaveSeat
    then show ?thesis using assms p game_leaveSeat roundOK_game by (auto simp: onMessage_def)
  next
    case StartGame
    then show ?thesis using assms p roundOK_startGame by (auto simp: onMessage_def)
  next
    case (Action a n)
    then have "loses s s'" using assms(2) p loses_processAction by (auto simp: onMessage_def)
    then show ?thesis using assms(1) roundOK_sameRound by (auto simp: loses_def)
  next
    case Other
    then show ?thesis using assms p by (auto simp: onMessage_def)
  qed
qed

lemma roundOK_onTimeout: "roundOK s \<Longrightarrow> onTimeout hv e s = Inr s' \<Longrightarrow> roundOK s'"
  using loses_onTimeout roundOK_sameRound by (auto simp: loses_def)

subsection \<open>Disconnecting\<close>

lemma bindE_Inr_left: "bindE (Inr x) f = f x"
  by (simp add: bindE_def)

lemma onClose_noBranch:
  assumes "roundOK s"
  shows "onClose hv e i s = onCloseNoBranch i s"
proof (cases "lookup s i")
  case None
  then show ?thesis by (simp add: onClose_def onCloseNoBranch_def)
next
  case (Some p0)
  show ?thesis
  proof (cases "game s")
    case None
    then show ?thesis using Some by (simp add: onClose_def onCloseNoBranch_def Let_def frame)
  next
    case g: (Some g)
    have "turnPlayerId g \<noteq> Some i" using assms g by (simp add: roundOK_def)
    then show ?thesis
      using Some g
      by (simp add: onClose_def onCloseNoBranch_def Let_def frame bindE_Inr_left)
  qed
qed

lemma roundOK_onCloseNoBranch:
  assumes "roundOK s" and "onCloseNoBranch i s = Inr s'"
  shows "roundOK s'"
proof (cases "lookup s i")
  case None
  then show ?thesis using assms by (simp add: onCloseNoBranch_def)
next
  case (Some p0)
  define s1 where "s1 = logToAll (LogDisconnected (name p0)) s"
  define s2 where "s2 = updPlayer i (\<lambda>p. p\<lparr>folded := True, active := False\<rparr>) s1"
  have r2: "roundOK s1" "roundOK s2"
    using assms(1) by (simp_all add: roundOK_def s1_def s2_def frame)
  obtain s4 where s4: "roundOK s4"
    "broadcastState
       ((case seat p0 of None \<Rightarrow> s4 | Some n \<Rightarrow> setSeat n None s4)
        \<lparr>players := filter (\<lambda>(k, p). k \<noteq> i)
           (players (case seat p0 of None \<Rightarrow> s4 | Some n \<Rightarrow> setSeat n None s4))\<rparr>) = Inr s'"
  proof (cases "game s1")
    case None
    then show ?thesis
      using that [of s1] r2(1) assms(2) Some
      by (simp add: onCloseNoBranch_def Let_def s1_def [symmetric] bindE_Inr_left)
  next
    case g: (Some g)
    show ?thesis
    proof (cases "numActive s2 g \<le> 1")
      case True
      then obtain s4 where a: "awardPotAndEnd s2 = Inr s4"
        and b: "broadcastState
          ((case seat p0 of None \<Rightarrow> s4 | Some n \<Rightarrow> setSeat n None s4)
           \<lparr>players := filter (\<lambda>(k, p). k \<noteq> i)
              (players (case seat p0 of None \<Rightarrow> s4 | Some n \<Rightarrow> setSeat n None s4))\<rparr>) = Inr s'"
        using assms(2) Some g
        by (auto simp: onCloseNoBranch_def Let_def s1_def [symmetric] s2_def [symmetric] bindE_Inr)
      have "roundOK s4"
        using keeps_awardPotAndEnd [OF a] r2(2) roundOK_sameRound by (auto simp: keeps_def)
      then show ?thesis using that b by blast
    next
      case False
      then show ?thesis
        using that [of s2] r2(2) assms(2) Some g
        by (simp add: onCloseNoBranch_def Let_def s1_def [symmetric] s2_def [symmetric]
            bindE_Inr_left)
    qed
  qed
  have "game s' = game s4"
    using game_broadcastState [OF s4(2)] by (simp add: setSeat_def split: option.splits)
  then show ?thesis using s4(1) roundOK_game by blast
qed

lemma roundOK_step:
  assumes "roundOK s" and "step hv ee s = Inr s'"
  shows "roundOK s'"
proof (cases "snd ee")
  case Connect
  then show ?thesis using assms game_connection roundOK_game by (auto simp: step_def)
next
  case (Message i d)
  then show ?thesis using assms roundOK_onMessage by (auto simp: step_def)
next
  case (Close i)
  then show ?thesis
    using assms roundOK_onCloseNoBranch onClose_noBranch [OF assms(1)] by (auto simp: step_def)
next
  case Timeout
  then show ?thesis using assms roundOK_onTimeout by (auto simp: step_def)
qed

lemma roundOK_run: "roundOK s \<Longrightarrow> run hv evs s = Inr s' \<Longrightarrow> roundOK s'"
proof (induction evs arbitrary: s)
  case Nil
  then show ?case by simp
next
  case (Cons ee evs)
  then obtain s1 where "step hv ee s = Inr s1" "run hv evs s1 = Inr s'"
    by (auto simp: bindE_Inr)
  then show ?case using Cons.IH Cons.prems(1) roundOK_step by blast
qed

lemma roundOK_initial: "roundOK initialServer"
  by (simp add: roundOK_def initialServer_def)

lemma map_of_filter_key:
  "map_of (filter (\<lambda>(k, p). k \<noteq> i) ps) k = (if k = i then None else map_of ps k)"
  by (induction ps) auto

lemma onCloseNoBranch_stays:
  assumes "roundOK s" and "lookup s i = Some p0" and "game s = Some g"
    and "1 < numActive (leaving i s) g"
  shows "\<exists>s'. onCloseNoBranch i s = Inr s' \<and> game s' = Some g \<and> turnTimer s' = turnTimer s \<and>
           lookup s' i = None \<and> (\<forall>k. k \<noteq> i \<longrightarrow> lookup s' k = lookup (leaving i s) k)"
proof -
  define s1 where "s1 = logToAll (LogDisconnected (name p0)) s"
  define s2 where "s2 = updPlayer i (\<lambda>p. p\<lparr>folded := True, active := False\<rparr>) s1"
  define s5 where "s5 = (case seat p0 of None \<Rightarrow> s2 | Some n \<Rightarrow> setSeat n None s2)"
  define s6 where "s6 = s5\<lparr>players := filter (\<lambda>(k, p). k \<noteq> i) (players s5)\<rparr>"
  have p2: "players s2 = players (leaving i s)"
    by (simp add: s2_def s1_def leaving_def updPlayer_def frame)
  have "activePlayers s2 g = activePlayers (leaving i s) g"
    by (rule activePlayers_cong [OF p2 refl])
  then have na: "\<not> numActive s2 g \<le> 1" using assms(4) by (simp add: numActive_def)
  have g1: "game s1 = Some g" by (simp add: s1_def frame assms(3))
  have eq: "onCloseNoBranch i s = broadcastState s6"
    using assms(2) g1 na
    by (simp add: onCloseNoBranch_def Let_def s1_def [symmetric] s2_def [symmetric]
        bindE_Inr_left s5_def [symmetric] s6_def [symmetric])
  have p5: "players s5 = players s2" "game s5 = game s2" "turnTimer s5 = turnTimer s2"
    by (simp_all add: s5_def setSeat_def split: option.splits)
  have g6: "game s6 = Some g" by (simp add: s6_def p5 s2_def frame g1)
  have so: "seatOrder g \<noteq> []" using assms(1,3) by (simp add: roundOK_def)
  have r: "broadcastState s6 = Inr (broadcast StateMsg s6)"
    using g6 so by (simp add: broadcastState_def)
  have t: "turnTimer (broadcast StateMsg s6) = turnTimer s"
    by (simp add: frame s6_def p5 s2_def s1_def)
  have l: "lookup (broadcast StateMsg s6) k = (if k = i then None else lookup (leaving i s) k)" for k
    by (simp add: lookup_def frame s6_def p5 p2 map_of_filter_key)
  show ?thesis unfolding eq r using g6 t l by (simp add: frame)
qed

text \<open>
  Claim C10 (the \<open>turnPlayerId\<close> branch of the disconnect handler). In every state
  reached from the initial table by connections, messages, disconnections and timeouts, the
  Round has no \<open>turnPlayerId\<close>, so the handler does what it does without its branch on
  \<open>turnPlayerId\<close>: it marks the player folded and inactive, awards the pot if at most one
  contesting player remains, frees the seat and removes the player. If more than one
  contesting player remains, the Round with its turn index and deadline and the pending
  timer are as before, also when the leaving player is the one to act.
\<close>

theorem disconnect_turn_branch_dead:
  assumes "run hv evs initialServer = Inr s"
  shows "(case game s of None \<Rightarrow> True | Some g \<Rightarrow> turnPlayerId g = None) \<and>
         onClose hv e i s = onCloseNoBranch i s \<and>
         (\<forall>p0 g. lookup s i = Some p0 \<and> game s = Some g \<and> 1 < numActive (leaving i s) g \<longrightarrow>
            (\<exists>s'. onClose hv e i s = Inr s' \<and> game s' = Some g \<and>
                  turnTimer s' = turnTimer s \<and> lookup s' i = None \<and>
                  (\<forall>k. k \<noteq> i \<longrightarrow> lookup s' k = lookup (leaving i s) k)))"
proof -
  have ok: "roundOK s" using roundOK_run [OF roundOK_initial assms] .
  then have 1: "case game s of None \<Rightarrow> True | Some g \<Rightarrow> turnPlayerId g = None"
    by (simp add: roundOK_def split: option.splits)
  have 2: "onClose hv e i s = onCloseNoBranch i s" using ok by (rule onClose_noBranch)
  show ?thesis using 1 2 onCloseNoBranch_stays [OF ok] by simp
qed

theorem disconnect_turn_branch_dead_witness:
  "turnPlayer (after threeStarted) = Some ''c'' \<and> turnTimer (after threeStarted) = Some ''c'' \<and>
   map_sum id game (onClose hvZero (envAt []) ''c'' (after threeStarted)) =
     Inr (game (after threeStarted)) \<and>
   map_sum id turnTimer (onClose hvZero (envAt []) ''c'' (after threeStarted)) = Inr (Some ''c'') \<and>
   map_sum id turnPlayer (onClose hvZero (envAt []) ''c'' (after threeStarted)) = Inr (Some ''c'')"
proof -
  let ?s = "after threeStarted"
  have r: "run hvZero threeStarted initialServer = Inr ?s" by code_simp
  have l: "lookup ?s ''c'' = Some (the (lookup ?s ''c''))" by code_simp
  have g: "game ?s = Some (the (game ?s))" by code_simp
  have n: "1 < numActive (leaving ''c'' ?s) (the (game ?s))" by code_simp
  have tp: "turnPlayer ?s = Some ''c''" by code_simp
  have tt: "turnTimer ?s = Some ''c''" by code_simp
  have "\<forall>p0 g. lookup ?s ''c'' = Some p0 \<and> game ?s = Some g \<and>
          1 < numActive (leaving ''c'' ?s) g \<longrightarrow>
          (\<exists>s'. onClose hvZero (envAt []) ''c'' ?s = Inr s' \<and> game s' = Some g \<and>
                turnTimer s' = turnTimer ?s \<and> lookup s' ''c'' = None \<and>
                (\<forall>k. k \<noteq> ''c'' \<longrightarrow> lookup s' k = lookup (leaving ''c'' ?s) k))"
    using disconnect_turn_branch_dead [OF r, of "envAt []" "''c''"] by (rule conjunct2 [OF conjunct2])
  then have "\<exists>s'. onClose hvZero (envAt []) ''c'' ?s = Inr s' \<and> game s' = Some (the (game ?s)) \<and>
                turnTimer s' = turnTimer ?s \<and> lookup s' ''c'' = None \<and>
                (\<forall>k. k \<noteq> ''c'' \<longrightarrow> lookup s' k = lookup (leaving ''c'' ?s) k)"
    using l g n by (elim allE [of _ "the (lookup ?s ''c'')"] allE [of _ "the (game ?s)"] impE) blast+
  then obtain s' where s': "onClose hvZero (envAt []) ''c'' ?s = Inr s'"
    "game s' = Some (the (game ?s))" "turnTimer s' = turnTimer ?s"
    by blast
  have gs: "game s' = game ?s" using s'(2) g by simp
  then have "turnPlayer s' = turnPlayer ?s" by (simp add: turnPlayer_def)
  then show ?thesis using s'(1,3) gs tp tt by simp
qed


end
